theory Spec2Isabelle
  imports Main "HOL-Library.Sublist" "HOL-Library.Option_ord" "HOL-Library.Multiset"
begin

section \<open>Values and outcomes of the opaque callables\<close>

text \<open>
  The dispatcher (class \<open>EventSystem\<close>, modules/event-system.js) passes an argument tuple to
  handlers, filters and middleware that it knows nothing about. Arguments and thrown values
  are JavaScript values; the ones the code itself builds or inspects are enough here.
\<close>

datatype jsval = JUndefined | JNum int | JStr string | JErr string

text \<open>
  A callable is modelled by what the dispatcher observes of one call on given arguments.
  Callables that call back into the dispatcher while they run (a handler that itself calls
  \<open>on\<close>, \<open>off\<close> or \<open>emit\<close>) are outside this model.

  \<^item> A listener handler is raced against a timer (\<open>Promise.race\<close>): it returns in time,
    throws (or rejects), or is still pending when its timeout fires.
  \<^item> Filters and middleware are awaited without a timer: they return or throw. A filter's
    return value is only tested for truthiness.
\<close>

datatype handler_outcome = Returns | Throws jsval | Overruns

datatype call_outcome = Done | Raised jsval

datatype verdict = Accepts | Rejects | Raises jsval

section \<open>The event system's data\<close>

record listener =
  handler :: "jsval list \<Rightarrow> handler_outcome"
  priority :: int
  type_l :: string
  id_l :: string
  once :: bool
  filter_l :: "(jsval list \<Rightarrow> verdict) option"
  timeout :: "nat option"

record middlewareItem =
  middleware :: "jsval list \<Rightarrow> call_outcome"
  priority_m :: int
  id_m :: string
  type_m :: string

record eventData =
  name :: string
  args :: "jsval list"
  timestamp :: nat

text \<open>
  \<open>metrics\<close> and \<open>config\<close> as the constructor builds them. The two averages
  (\<open>averageProcessingTime\<close>, and \<open>totalTime\<close>/\<open>averageTime\<close> per event name) are
  floating-point measurements of wall-clock time and are left out; of the per-name metrics the
  \<open>count\<close> is kept. The \<open>activeEvents\<close> set (an id added when an event starts and deleted in
  the \<open>finally\<close> of \<open>processEvent\<close>) and the event's random id are left out with it.
\<close>

record metrics =
  eventsProcessed :: nat
  eventsQueued :: int
  middlewareExecutions :: nat
  errorEvents :: nat
  lastProcessedEvent :: "string option"

record config =
  maxQueueSize :: nat
  processingTimeout :: nat
  enableMetrics :: bool
  enableFiltering :: bool
  concurrentEvents :: nat
  retryAttempts :: nat

text \<open>
  \<open>pendingImmediate\<close> counts the \<open>setImmediate(() => this.processEventQueue())\<close> callbacks
  that \<open>processEventQueue\<close> has scheduled and the event loop has not yet run.
\<close>

record EventSystem =
  eventListeners :: "string \<rightharpoonup> listener list"
  middlewareStack :: "string \<rightharpoonup> middlewareItem list"
  eventQueue :: "eventData list"
  eventFilters :: "string \<rightharpoonup> (jsval list \<Rightarrow> verdict) list"
  eventMetrics :: "string \<rightharpoonup> nat"
  metrics :: metrics
  config :: config
  isProcessing :: bool
  pendingImmediate :: nat

text \<open>What the dispatcher does that an observer can see, in the order it does it.\<close>

datatype effect =
    EventFilterCall nat "jsval list"
  | MiddlewareCall middlewareItem "jsval list"
  | MiddlewareError middlewareItem jsval
  | ListenerCall listener "jsval list"
  | ListenerError listener jsval

section \<open>Registration\<close>

text \<open>The decimal rendering of \<open>Date.now()\<close> inside a template string.\<close>

fun decimal :: "nat \<Rightarrow> string" where
  "decimal n = (if n < 10 then [''0123456789'' ! n]
                else decimal (n div 10) @ [''0123456789'' ! (n mod 10)])"

declare decimal.simps [simp del]

text \<open>\<open>this.eventListeners.get(eventName) || []\<close>\<close>

definition listenersOf :: "EventSystem \<Rightarrow> string \<Rightarrow> listener list" where
  "listenersOf es eventName =
     (case eventListeners es eventName of None \<Rightarrow> [] | Some ls \<Rightarrow> ls)"

text \<open>
  \<open>registerBuiltInEvent\<close> pushes without sorting; the constructor calls it once for each of
  its nineteen event names.
\<close>

definition registerBuiltInEvent ::
  "string \<Rightarrow> (jsval list \<Rightarrow> handler_outcome) \<Rightarrow> nat \<Rightarrow> EventSystem \<Rightarrow> EventSystem" where
  "registerBuiltInEvent eventName h now es =
     es\<lparr>eventListeners := (eventListeners es)(eventName \<mapsto>
          listenersOf es eventName @
            [\<lparr>handler = h, priority = 1, type_l = ''built-in'',
              id_l = ''builtin_'' @ eventName @ ''_'' @ decimal now,
              once = False, filter_l = None, timeout = None\<rparr>])\<rparr>"

text \<open>
  The options object of \<open>on\<close>. A missing property is \<open>None\<close>; \<open>options.once\<close> is only
  tested for truthiness. Every default is written with \<open>||\<close>, so a falsy value that is
  present (priority 0, the empty id, timeout 0) gets the default too.
\<close>

record options =
  priority_o :: "int option"
  id_o :: "string option"
  once_o :: bool
  filter_o :: "(jsval list \<Rightarrow> verdict) option"
  timeout_o :: "nat option"

definition noOptions :: options where
  "noOptions = \<lparr>priority_o = None, id_o = None, once_o = False, filter_o = None,
                timeout_o = None\<rparr>"

definition makeListener ::
  "string \<Rightarrow> (jsval list \<Rightarrow> handler_outcome) \<Rightarrow> options \<Rightarrow> nat \<Rightarrow> EventSystem \<Rightarrow> listener" where
  "makeListener eventName h opts now es =
     \<lparr>handler = h,
      priority = (case priority_o opts of None \<Rightarrow> 5 | Some p \<Rightarrow> if p = 0 then 5 else p),
      type_l = ''custom'',
      id_l = (case id_o opts of
                None \<Rightarrow> ''custom_'' @ eventName @ ''_'' @ decimal now
              | Some s \<Rightarrow> if s = [] then ''custom_'' @ eventName @ ''_'' @ decimal now else s),
      once = once_o opts,
      filter_l = filter_o opts,
      timeout = (case timeout_o opts of
                   None \<Rightarrow> Some (processingTimeout (config es))
                 | Some t \<Rightarrow> if t = 0 then Some (processingTimeout (config es)) else Some t)\<rparr>"

text \<open>
  \<open>on\<close> pushes the new listener and sorts the whole array with the comparator
  \<open>(a, b) => a.priority - b.priority\<close>. \<open>Array.prototype.sort\<close> is stable (ECMAScript 2019),
  which is what \<open>sort_key\<close> is. The clock is the argument \<open>now\<close>.
\<close>

definition on ::
  "string \<Rightarrow> (jsval list \<Rightarrow> handler_outcome) \<Rightarrow> options \<Rightarrow> nat \<Rightarrow> EventSystem
     \<Rightarrow> string \<times> EventSystem" where
  "on eventName h opts now es =
     (let l = makeListener eventName h opts now es
      in (id_l l,
          es\<lparr>eventListeners := (eventListeners es)(eventName \<mapsto>
               sort_key priority (listenersOf es eventName @ [l]))\<rparr>))"

text \<open>\<open>once\<close> is \<open>on\<close> with \<open>{ ...options, once: true }\<close>. (The constant \<open>once\<close> is the
  listener's field, so the method carries a suffix.)\<close>

definition once_on ::
  "string \<Rightarrow> (jsval list \<Rightarrow> handler_outcome) \<Rightarrow> options \<Rightarrow> nat \<Rightarrow> EventSystem
     \<Rightarrow> string \<times> EventSystem" where
  "once_on eventName h opts now es = on eventName h (opts\<lparr>once_o := True\<rparr>) now es"

text \<open>\<open>Array.prototype.findIndex\<close> (\<open>None\<close> for -1) and \<open>splice(index, 1)\<close>.\<close>

fun findIndex :: "('a \<Rightarrow> bool) \<Rightarrow> 'a list \<Rightarrow> nat option" where
  "findIndex P [] = None"
| "findIndex P (x # xs) = (if P x then Some 0 else map_option Suc (findIndex P xs))"

definition splice1 :: "nat \<Rightarrow> 'a list \<Rightarrow> 'a list" where
  "splice1 k xs = take k xs @ drop (Suc k) xs"

text \<open>
  \<open>off\<close>, once the name is known to the registry, works on the array stored for it:
  \<open>findIndex\<close> by id, \<open>splice\<close> at the first match. \<open>spliceById\<close> is that part; the
  listener loop below reaches it through \<open>this.off(eventName, listener.id)\<close> on the very
  array it is iterating.
\<close>

definition spliceById :: "string \<Rightarrow> listener list \<Rightarrow> bool \<times> listener list" where
  "spliceById listenerId listeners =
     (case findIndex (\<lambda>l. id_l l = listenerId) listeners of
        Some index \<Rightarrow> (True, splice1 index listeners)
      | None \<Rightarrow> (False, listeners))"

definition off :: "string \<Rightarrow> string \<Rightarrow> EventSystem \<Rightarrow> bool \<times> EventSystem" where
  "off eventName listenerId es =
     (case eventListeners es eventName of
        None \<Rightarrow> (False, es)
      | Some listeners \<Rightarrow>
          (let r = spliceById listenerId listeners
           in if fst r
              then (True, es\<lparr>eventListeners := (eventListeners es)(eventName \<mapsto> snd r)\<rparr>)
              else (False, es)))"

text \<open>\<open>use\<close>: the phase is \<open>options.type || 'pre'\<close>; the stack is sorted like the listeners.\<close>

record mw_options =
  priority_mo :: "int option"
  id_mo :: "string option"
  type_mo :: "string option"

definition use ::
  "string \<Rightarrow> (jsval list \<Rightarrow> call_outcome) \<Rightarrow> mw_options \<Rightarrow> nat \<Rightarrow> EventSystem
     \<Rightarrow> string \<times> EventSystem" where
  "use eventName mw opts now es =
     (let item = \<lparr>middleware = mw,
                  priority_m = (case priority_mo opts of None \<Rightarrow> 5
                                | Some p \<Rightarrow> if p = 0 then 5 else p),
                  id_m = (case id_mo opts of
                            None \<Rightarrow> ''middleware_'' @ eventName @ ''_'' @ decimal now
                          | Some s \<Rightarrow> if s = []
                                      then ''middleware_'' @ eventName @ ''_'' @ decimal now
                                      else s),
                  type_m = (case type_mo opts of None \<Rightarrow> ''pre''
                            | Some t \<Rightarrow> if t = [] then ''pre'' else t)\<rparr>
      in (id_m item,
          es\<lparr>middlewareStack := (middlewareStack es)(eventName \<mapsto>
               sort_key priority_m
                 ((case middlewareStack es eventName of None \<Rightarrow> [] | Some ms \<Rightarrow> ms)
                  @ [item]))\<rparr>))"

definition addFilter :: "string \<Rightarrow> (jsval list \<Rightarrow> verdict) \<Rightarrow> EventSystem \<Rightarrow> EventSystem" where
  "addFilter eventName f es =
     es\<lparr>eventFilters := (eventFilters es)(eventName \<mapsto>
          (case eventFilters es eventName of None \<Rightarrow> [] | Some fs \<Rightarrow> fs) @ [f])\<rparr>"

section \<open>Processing an event\<close>

text \<open>
  \<open>applyEventFilters\<close>: the filters of the name run in registration order; the first falsy
  result drops the event, a filter that throws is logged and lets the event through.
  The result is the boolean and the calls made (by position in the filter array).
\<close>

fun filtersLoop :: "(jsval list \<Rightarrow> verdict) list \<Rightarrow> nat \<Rightarrow> jsval list \<Rightarrow> bool \<times> effect list" where
  "filtersLoop [] k a = (True, [])"
| "filtersLoop (f # fs) k a =
     (case f a of
        Rejects \<Rightarrow> (False, [EventFilterCall k a])
      | Accepts \<Rightarrow> (let (r, tr) = filtersLoop fs (Suc k) a in (r, EventFilterCall k a # tr))
      | Raises e \<Rightarrow> (let (r, tr) = filtersLoop fs (Suc k) a in (r, EventFilterCall k a # tr)))"

definition applyEventFilters :: "string \<Rightarrow> jsval list \<Rightarrow> EventSystem \<Rightarrow> bool \<times> effect list" where
  "applyEventFilters eventName a es =
     filtersLoop (case eventFilters es eventName of None \<Rightarrow> [] | Some fs \<Rightarrow> fs) 0 a"

text \<open>
  \<open>executeMiddleware\<close>: the middleware of the name whose type is the given one, in stack
  order; a call that returns counts in the metrics, a call that throws is logged, and the
  loop goes on either way.
\<close>

fun middlewareLoop ::
  "middlewareItem list \<Rightarrow> jsval list \<Rightarrow> EventSystem \<Rightarrow> EventSystem \<times> effect list" where
  "middlewareLoop [] a es = (es, [])"
| "middlewareLoop (m # ms) a es =
     (case middleware m a of
        Done \<Rightarrow>
          (let (es', tr) =
                 middlewareLoop ms a
                   (es\<lparr>metrics := (metrics es)\<lparr>middlewareExecutions :=
                                      Suc (middlewareExecutions (metrics es))\<rparr>\<rparr>)
           in (es', MiddlewareCall m a # tr))
      | Raised e \<Rightarrow>
          (let (es', tr) = middlewareLoop ms a es
           in (es', MiddlewareCall m a # MiddlewareError m e # tr)))"

definition executeMiddleware ::
  "string \<Rightarrow> string \<Rightarrow> jsval list \<Rightarrow> EventSystem \<Rightarrow> EventSystem \<times> effect list" where
  "executeMiddleware eventName ty a es =
     middlewareLoop
       (filter (\<lambda>m. type_m m = ty)
          (case middlewareStack es eventName of None \<Rightarrow> [] | Some ms \<Rightarrow> ms)) a es"

text \<open>
  The body of the \<open>try\<close> block of \<open>executeEventListeners\<close> for one listener, up to the
  removal of a one-shot listener: the listener's own filter (falsy: \<open>continue\<close>), then the
  handler raced against \<open>listener.timeout\<close>. Whatever is thrown there, by the filter, by the
  handler or by the timer (\<open>new Error('Listener timeout')\<close>), lands in the \<open>catch\<close>, which
  logs it and continues.
\<close>

datatype attempt = Skipped | Completed | Failed jsval

definition tryListener :: "listener \<Rightarrow> jsval list \<Rightarrow> attempt \<times> effect list" where
  "tryListener l a =
     (case (case filter_l l of None \<Rightarrow> Accepts | Some f \<Rightarrow> f a) of
        Rejects \<Rightarrow> (Skipped, [])
      | Raises e \<Rightarrow> (Failed e, [ListenerError l e])
      | Accepts \<Rightarrow>
          (case handler l a of
             Returns \<Rightarrow> (Completed, [ListenerCall l a])
           | Throws e \<Rightarrow> (Failed e, [ListenerCall l a, ListenerError l e])
           | Overruns \<Rightarrow>
               (Failed (JErr ''Listener timeout''),
                [ListenerCall l a, ListenerError l (JErr ''Listener timeout'')])))"

text \<open>
  \<open>for (const listener of listeners)\<close> walks the array by position: the iterator holds an
  index, and each step reads the array as it is then. \<open>this.off(eventName, listener.id)\<close>
  splices that same array (the one the registry holds for the name) while the loop runs.
  The loop is therefore a recursion on the index over the current array, and its result is
  the array it leaves behind together with what it did.
\<close>

function listenersLoop ::
  "jsval list \<Rightarrow> nat \<Rightarrow> listener list \<Rightarrow> listener list \<times> effect list" where
  "listenersLoop a i listeners =
     (if i < length listeners then
        (let l = listeners ! i;
             r = tryListener l a;
             listeners1 = (if fst r = Completed \<and> once l
                           then snd (spliceById (id_l l) listeners) else listeners);
             rest = listenersLoop a (Suc i) listeners1
         in (fst rest, snd r @ snd rest))
      else (listeners, []))"
  by pat_completeness auto
termination
proof (relation "measure (\<lambda>(a, i, ls). length ls - i)")
  show "wf (measure (\<lambda>(a, i, ls). length ls - i))"
    by simp
next
  fix a :: "jsval list" and i :: nat and listeners x :: "listener list"
    and l :: listener and r :: "attempt \<times> effect list"
  assume "i < length listeners"
    and "x = (if fst r = Completed \<and> once l
              then snd (spliceById (id_l l) listeners) else listeners)"
  moreover have "length (snd (spliceById (id_l l) listeners)) \<le> length listeners"
    by (auto simp: spliceById_def splice1_def min_def split: option.splits)
  ultimately show "((a, Suc i, x), (a, i, listeners)) \<in> measure (\<lambda>(a, i, ls). length ls - i)"
    by auto
qed

declare listenersLoop.simps [simp del]

definition executeEventListeners ::
  "string \<Rightarrow> jsval list \<Rightarrow> EventSystem \<Rightarrow> EventSystem \<times> effect list" where
  "executeEventListeners eventName a es =
     (case eventListeners es eventName of
        None \<Rightarrow> (es, [])
      | Some listeners \<Rightarrow>
          (let r = listenersLoop a 0 listeners
           in (es\<lparr>eventListeners := (eventListeners es)(eventName \<mapsto> fst r)\<rparr>, snd r)))"

definition updateEventMetrics :: "string \<Rightarrow> EventSystem \<Rightarrow> EventSystem" where
  "updateEventMetrics eventName es =
     (if \<not> enableMetrics (config es) then es
      else es\<lparr>metrics := (metrics es)\<lparr>eventsProcessed := Suc (eventsProcessed (metrics es)),
                                       lastProcessedEvent := Some eventName\<rparr>,
              eventMetrics := (eventMetrics es)(eventName \<mapsto>
                 Suc (case eventMetrics es eventName of None \<Rightarrow> 0 | Some c \<Rightarrow> c))\<rparr>)"

text \<open>
  \<open>processEvent\<close>: filters, pre-middleware, listeners, post-middleware, metrics. A filtered
  event returns before anything else runs.

  The \<open>catch\<close> block of \<open>processEvent\<close> (which runs the middleware of type \<open>'error'\<close> on
  \<open>[error, ...args]\<close>, then \<open>handleEventError\<close>, then counts \<open>errorEvents\<close>) is entered only
  when a statement of its \<open>try\<close> block throws. Each of them catches what the callables it
  invokes throw (the three loops above all \<open>continue\<close> in their own \<open>catch\<close>), and
  \<open>updateEventMetrics\<close> raises nothing, so no outcome of a handler, filter or middleware
  reaches that block; it has no branch here.
\<close>

definition processEvent :: "eventData \<Rightarrow> EventSystem \<Rightarrow> EventSystem \<times> effect list" where
  "processEvent ev es =
     (let f = (if enableFiltering (config es) then applyEventFilters (name ev) (args ev) es
               else (True, []))
      in if \<not> fst f then (es, snd f)
         else
           (let pre = executeMiddleware (name ev) ''pre'' (args ev) es;
                lis = executeEventListeners (name ev) (args ev) (fst pre);
                post = executeMiddleware (name ev) ''post'' (args ev) (fst lis)
            in (updateEventMetrics (name ev) (fst post),
                snd f @ snd pre @ snd lis @ snd post)))"

text \<open>
  \<open>processEventQueue\<close> takes up to \<open>concurrentEvents\<close> events off the queue, starts
  \<open>processEvent\<close> on each and awaits them all; then it clears \<open>isProcessing\<close> and, if events
  are left, schedules itself with \<open>setImmediate\<close>. The events of one batch are run here one
  after the other, in queue order: how their \<open>await\<close> points interleave is not modelled.
  With one event in the batch (every emit that is awaited before the next one is made)
  there is nothing to interleave.
\<close>

fun processBatch :: "eventData list \<Rightarrow> EventSystem \<Rightarrow> EventSystem \<times> effect list" where
  "processBatch [] es = (es, [])"
| "processBatch (ev # evs) es =
     (let r = processEvent ev es; rest = processBatch evs (fst r)
      in (fst rest, snd r @ snd rest))"

definition processEventQueue :: "EventSystem \<Rightarrow> EventSystem \<times> effect list" where
  "processEventQueue es =
     (if isProcessing es \<or> eventQueue es = [] then (es, [])
      else
        (let n = concurrentEvents (config es);
             r = processBatch (take n (eventQueue es))
                   (es\<lparr>isProcessing := True, eventQueue := drop n (eventQueue es)\<rparr>);
             es' = (fst r)\<lparr>isProcessing := False\<rparr>
         in (if eventQueue es' \<noteq> [] then es'\<lparr>pendingImmediate := Suc (pendingImmediate es')\<rparr>
             else es',
             snd r)))"

text \<open>
  \<open>emit\<close> resolves to a boolean. A full queue returns \<open>false\<close> (and, as the source does,
  decrements \<open>eventsQueued\<close>). Otherwise the event is pushed and, unless a run is already
  in progress, the queue is processed before \<open>true\<close> is returned. The \<open>catch\<close> of \<open>emit\<close>
  (which returns \<open>false\<close>) could only be entered by an exception of \<open>processEventQueue\<close>,
  which catches its own. An exception is a value in this model, and \<open>emit\<close> has none: its
  result is always the boolean.
\<close>

definition emit ::
  "string \<Rightarrow> jsval list \<Rightarrow> nat \<Rightarrow> EventSystem \<Rightarrow> bool \<times> EventSystem \<times> effect list" where
  "emit eventName a now es =
     (if length (eventQueue es) \<ge> maxQueueSize (config es)
      then (False,
            es\<lparr>metrics := (metrics es)\<lparr>eventsQueued := eventsQueued (metrics es) - 1\<rparr>\<rparr>, [])
      else
        (let es1 = es\<lparr>eventQueue := eventQueue es @
                          [\<lparr>name = eventName, args = a, timestamp = now\<rparr>],
                       metrics := (metrics es)\<lparr>eventsQueued := eventsQueued (metrics es) + 1\<rparr>\<rparr>
         in if \<not> isProcessing es1
            then (let r = processEventQueue es1 in (True, fst r, snd r))
            else (True, es1, [])))"

text \<open>The constructor. The outcomes of the built-in handlers are a parameter.\<close>

definition builtInEvents :: "string list" where
  "builtInEvents =
     [''ready'', ''messageCreate'', ''interactionCreate'', ''guildCreate'', ''guildDelete'',
      ''guildMemberAdd'', ''guildMemberRemove'', ''channelCreate'', ''channelDelete'',
      ''roleCreate'', ''roleDelete'', ''error'', ''disconnect'', ''reconnect'',
      ''aiDecision'', ''serverOptimization'', ''userSupport'', ''healthCheck'',
      ''learningUpdate'']"

definition newEventSystem ::
  "(string \<Rightarrow> jsval list \<Rightarrow> handler_outcome) \<Rightarrow> nat \<Rightarrow> EventSystem" where
  "newEventSystem builtin now =
     fold (\<lambda>n. registerBuiltInEvent n (builtin n) now) builtInEvents
       \<lparr>eventListeners = Map.empty, middlewareStack = Map.empty, eventQueue = [],
        eventFilters = Map.empty, eventMetrics = Map.empty,
        metrics = \<lparr>eventsProcessed = 0, eventsQueued = 0, middlewareExecutions = 0,
                   errorEvents = 0, lastProcessedEvent = None\<rparr>,
        config = \<lparr>maxQueueSize = 1000, processingTimeout = 30000, enableMetrics = True,
                  enableFiltering = True, concurrentEvents = 10, retryAttempts = 3\<rparr>,
        isProcessing = False, pendingImmediate = 0\<rparr>"

section \<open>The gateway client\<close>

text \<open>
  Class \<open>DiscordClient\<close> (modules/discord-client.js). A gateway packet is \<open>{ op, d, s, t }\<close>.
  (The fields carry the
  suffix \<open>_p\<close> here.) Sequence numbers are non-negative integers, \<open>null\<close> in a packet that
  carries none. Of the
  payload \<open>d\<close> the model keeps what the handlers read: the READY payload (user, session id,
  ids of the guilds), a guild (id and, if present, the ids of its channels), the HELLO
  payload (heartbeat interval), anything else as an opaque value, and \<open>null\<close>.
\<close>

datatype payload =
    Ready string string "string list"
  | Guild string "string list option"
  | Hello nat
  | Opaque string
  | Null

record packet =
  op_p :: nat
  d_p :: payload
  s_p :: "nat option"
  t_p :: "string option"

datatype outbound = Heartbeat "nat option"

datatype js_exception = TypeError string

text \<open>
  The client's state: the fields the gateway handlers and the REST helper touch. \<open>wsOpen\<close>
  is \<open>this.ws && this.ws.readyState === 1\<close>; \<open>sent\<close> collects what \<open>ws.send\<close> was given and
  \<open>emitted\<close> what \<open>this.emit\<close> was given; \<open>heartbeatInterval\<close> holds the interval of the timer
  that \<open>startHeartbeat\<close> created last; \<open>rateLimits\<close> maps a route key to its \<open>resetTime\<close> in
  milliseconds.
\<close>

record DiscordClient =
  lastSequence :: "nat option"
  sessionId :: "string option"
  user :: "string option"
  connected :: bool
  guilds :: "string \<rightharpoonup> payload"
  channels :: "string set"
  heartbeatInterval :: "nat option"
  wsOpen :: bool
  sent :: "outbound list"
  emitted :: "(string \<times> payload option) list"
  rateLimits :: "string \<rightharpoonup> int"

definition newClient :: DiscordClient where
  "newClient = \<lparr>lastSequence = None, sessionId = None, user = None, connected = False,
                guilds = Map.empty, channels = {}, heartbeatInterval = None, wsOpen = False,
                sent = [], emitted = [], rateLimits = Map.empty\<rparr>"

text \<open>\<open>String.prototype.toLowerCase\<close> on the ASCII letters of an event type.\<close>

definition toLowerCase :: "string \<Rightarrow> string" where
  "toLowerCase str =
     map (\<lambda>c. if 65 \<le> (of_char c :: nat) \<and> (of_char c :: nat) \<le> 90
               then char_of ((of_char c :: nat) + 32) else c) str"

definition sendHeartbeat :: "DiscordClient \<Rightarrow> DiscordClient" where
  "sendHeartbeat c =
     (if wsOpen c then c\<lparr>sent := sent c @ [Heartbeat (lastSequence c)]\<rparr> else c)"

text \<open>
  \<open>handleReady\<close> reads \<open>data.guilds.length\<close> first, so a payload without guilds raises a
  \<open>TypeError\<close> before anything is stored.
\<close>

definition handleReady :: "payload \<Rightarrow> DiscordClient \<Rightarrow> DiscordClient \<times> js_exception option" where
  "handleReady data c =
     (case data of
        Ready u sid gs \<Rightarrow>
          (c\<lparr>user := Some u, sessionId := Some sid, connected := True,
             guilds := fold (\<lambda>g m. m(g \<mapsto> Guild g None)) gs (guilds c),
             emitted := emitted c @ [(''ready'', None)]\<rparr>, None)
      | _ \<Rightarrow> (c, Some (TypeError ''data.guilds is undefined'')))"

definition handleGuildCreate ::
  "payload \<Rightarrow> DiscordClient \<Rightarrow> DiscordClient \<times> js_exception option" where
  "handleGuildCreate guild c =
     (case guild of
        Guild g chs \<Rightarrow>
          (c\<lparr>guilds := (guilds c)(g \<mapsto> guild),
             channels := (case chs of None \<Rightarrow> channels c | Some ids \<Rightarrow> channels c \<union> set ids),
             emitted := emitted c @ [(''guildCreate'', Some guild)]\<rparr>, None)
      | Null \<Rightarrow> (c, Some (TypeError ''guild is null''))
      | _ \<Rightarrow>
          (c\<lparr>guilds := (guilds c)(''undefined'' \<mapsto> guild),
             emitted := emitted c @ [(''guildCreate'', Some guild)]\<rparr>, None))"

text \<open>
  \<open>handleDispatch\<close> switches on the event type; a packet without one falls to the default
  branch, where \<open>event.toLowerCase()\<close> raises.
\<close>

definition handleDispatch ::
  "string option \<Rightarrow> payload \<Rightarrow> DiscordClient \<Rightarrow> DiscordClient \<times> js_exception option" where
  "handleDispatch event data c =
     (case event of
        None \<Rightarrow> (c, Some (TypeError ''event is null''))
      | Some e \<Rightarrow>
          if e = ''READY'' then handleReady data c
          else if e = ''GUILD_CREATE'' then handleGuildCreate data c
          else if e = ''INTERACTION_CREATE''
            then (c\<lparr>emitted := emitted c @ [(''interactionCreate'', Some data)]\<rparr>, None)
          else if e = ''MESSAGE_CREATE''
            then (c\<lparr>emitted := emitted c @ [(''messageCreate'', Some data)]\<rparr>, None)
          else (c\<lparr>emitted := emitted c @ [(toLowerCase e, Some data)]\<rparr>, None))"

text \<open>
  \<open>startHeartbeat(d.heartbeat_interval)\<close>: reading the property of \<open>null\<close> raises; a payload
  without the property gives \<open>setInterval\<close> an undefined delay, which Node takes as 1 ms.
\<close>

definition startHeartbeat :: "payload \<Rightarrow> DiscordClient \<Rightarrow> DiscordClient \<times> js_exception option" where
  "startHeartbeat data c =
     (case data of
        Hello interval \<Rightarrow> (c\<lparr>heartbeatInterval := Some interval\<rparr>, None)
      | Null \<Rightarrow> (c, Some (TypeError ''d is null''))
      | _ \<Rightarrow> (c\<lparr>heartbeatInterval := Some 1\<rparr>, None))"

text \<open>
  \<open>handleGatewayMessage\<close>: \<open>if (s) this.lastSequence = s\<close> comes first, and \<open>s\<close> is tested
  for truthiness, so neither \<open>null\<close> nor 0 is stored. What the branch for the opcode raises
  leaves that assignment in place: the result is the state and the exception, if any.
\<close>

definition handleGatewayMessage ::
  "packet \<Rightarrow> DiscordClient \<Rightarrow> DiscordClient \<times> js_exception option" where
  "handleGatewayMessage p c =
     (let c1 = (case s_p p of
                  None \<Rightarrow> c
                | Some k \<Rightarrow> if k = 0 then c else c\<lparr>lastSequence := Some k\<rparr>)
      in if op_p p = 0 then handleDispatch (t_p p) (d_p p) c1
         else if op_p p = 1 then (sendHeartbeat c1, None)
         else if op_p p = 10 then startHeartbeat (d_p p) c1
         else (c1, None))"

text \<open>The states after each packet of a sequence, delivered one after the other.\<close>

fun deliver :: "packet list \<Rightarrow> DiscordClient \<Rightarrow> DiscordClient list" where
  "deliver [] c = []"
| "deliver (p # ps) c =
     fst (handleGatewayMessage p c) # deliver ps (fst (handleGatewayMessage p c))"

section \<open>The REST helper\<close>

text \<open>
  \<open>parseInt\<close> of a header value. \<open>Headers.get\<close> gives \<open>null\<close> for a missing header, which
  \<open>parseInt\<close> reads as the string \<open>null\<close>: not a number (\<open>None\<close>). Otherwise leading white
  space is skipped, a sign is read, a \<open>0x\<close> prefix selects radix 16, and the longest prefix
  of digits is the value; with no digit the result is not a number.
\<close>

definition isSpace :: "char \<Rightarrow> bool" where
  "isSpace c = ((of_char c :: nat) \<in> {9, 10, 11, 12, 13, 32})"

definition digitValue :: "char \<Rightarrow> nat option" where
  "digitValue c =
     (let k = (of_char c :: nat)
      in if 48 \<le> k \<and> k \<le> 57 then Some (k - 48)
         else if 97 \<le> k \<and> k \<le> 102 then Some (k - 87)
         else if 65 \<le> k \<and> k \<le> 70 then Some (k - 55)
         else None)"

fun digits :: "nat \<Rightarrow> string \<Rightarrow> nat list" where
  "digits radix [] = []"
| "digits radix (c # cs) =
     (case digitValue c of
        None \<Rightarrow> []
      | Some v \<Rightarrow> if v < radix then v # digits radix cs else [])"

definition number :: "nat \<Rightarrow> nat list \<Rightarrow> nat" where
  "number radix vs = foldl (\<lambda>acc v. acc * radix + v) 0 vs"

definition parseMagnitude :: "string \<Rightarrow> nat option" where
  "parseMagnitude str =
     (if take 2 str = ''0x'' \<or> take 2 str = ''0X''
      then (if digits 16 (drop 2 str) = [] then None
            else Some (number 16 (digits 16 (drop 2 str))))
      else (if digits 10 str = [] then None else Some (number 10 (digits 10 str))))"

definition parseInt :: "string option \<Rightarrow> int option" where
  "parseInt v =
     (case v of
        None \<Rightarrow> None
      | Some str \<Rightarrow>
          (case dropWhile isSpace str of
             [] \<Rightarrow> None
           | c # cs \<Rightarrow>
               if c = CHR ''-'' then map_option (\<lambda>m. - int m) (parseMagnitude cs)
               else if c = CHR ''+'' then map_option int (parseMagnitude cs)
               else map_option int (parseMagnitude (c # cs))))"

text \<open>\<open>x || 1\<close> on a number: not-a-number and 0 are falsy.\<close>

definition orOne :: "int option \<Rightarrow> int" where
  "orOne v = (case v of None \<Rightarrow> 1 | Some k \<Rightarrow> if k = 0 then 1 else k)"

text \<open>\<open>endpoint.split('/').slice(0, 2).join('/')\<close>\<close>

fun split_slash :: "string \<Rightarrow> string list" where
  "split_slash [] = [[]]"
| "split_slash (c # cs) =
     (if c = CHR ''/'' then [] # split_slash cs
      else (case split_slash cs of
              [] \<Rightarrow> [[c]]
            | w # ws \<Rightarrow> (c # w) # ws))"

fun join_slash :: "string list \<Rightarrow> string" where
  "join_slash [] = []"
| "join_slash [w] = w"
| "join_slash (w # ws) = w @ ''/'' @ join_slash ws"

definition getRouteKey :: "string \<Rightarrow> string" where
  "getRouteKey endpoint = join_slash (take 2 (split_slash endpoint))"

text \<open>
  \<open>checkRateLimit\<close> suspends the caller for \<open>resetTime - Date.now()\<close> when the route has an
  entry whose reset time lies ahead. The clock is the argument \<open>now\<close> (milliseconds); the
  result is the time the caller is suspended for.
\<close>

definition checkRateLimit :: "string \<Rightarrow> int \<Rightarrow> DiscordClient \<Rightarrow> int" where
  "checkRateLimit endpoint now c =
     (case rateLimits c (getRouteKey endpoint) of
        Some resetTime \<Rightarrow> if resetTime > now then resetTime - now else 0
      | None \<Rightarrow> 0)"

definition updateRateLimit ::
  "string \<Rightarrow> (string \<rightharpoonup> string) \<Rightarrow> int \<Rightarrow> DiscordClient \<Rightarrow> DiscordClient" where
  "updateRateLimit endpoint headers now c =
     (let route = getRouteKey endpoint;
          remaining = orOne (parseInt (headers ''x-ratelimit-remaining''));
          resetAfter = orOne (parseInt (headers ''x-ratelimit-reset-after''))
      in if remaining = 0
         then c\<lparr>rateLimits := (rateLimits c)(route \<mapsto> now + resetAfter * 1000)\<rparr>
         else c)"

text \<open>
  \<open>api\<close>: wait out the rate limit, call the transport, update the rate limit from the
  response headers, and return the body or raise on a status that is not ok. The transport's
  answer and the time it arrives are arguments. The result is the time the request reached
  the transport, what the caller gets, and the client afterwards.
\<close>

record response =
  ok :: bool
  status :: nat
  headers :: "string \<rightharpoonup> string"
  body :: string

datatype fetched = NetworkError string | Responded response

definition api ::
  "string \<Rightarrow> int \<Rightarrow> fetched \<Rightarrow> int \<Rightarrow> DiscordClient \<Rightarrow> int \<times> (string + string) \<times> DiscordClient" where
  "api endpoint now answer answeredAt c =
     (let sentAt = now + checkRateLimit endpoint now c
      in case answer of
           NetworkError e \<Rightarrow> (sentAt, Inl e, c)
         | Responded r \<Rightarrow>
             (sentAt,
              if ok r then Inr (body r) else Inl (''Discord API Error: '' @ body r),
              updateRateLimit endpoint (headers r) answeredAt c))"


section \<open>The provider orchestrator\<close>

text \<open>
  Class \<open>AIEngine\<close> (modules/ai-engine.js): \<open>providerStatus\<close> and the four counters of
  \<open>metrics\<close> that \<open>processIntelligence\<close> writes. (The fields of the status records carry the
  suffix \<open>_s\<close>.)
\<close>

record providerStatus =
  available_s :: bool
  lastError_s :: "string option"
  errorCount_s :: nat

record AIEngine =
  primary :: providerStatus
  fallback :: providerStatus
  decisionsGenerated :: nat
  primaryProviderUsage :: nat
  fallbackProviderUsage :: nat
  errorRecoveries :: nat

definition newAIEngine :: AIEngine where
  "newAIEngine =
     \<lparr>primary = \<lparr>available_s = True, lastError_s = None, errorCount_s = 0\<rparr>,
      fallback = \<lparr>available_s = True, lastError_s = None, errorCount_s = 0\<rparr>,
      decisionsGenerated = 0, primaryProviderUsage = 0, fallbackProviderUsage = 0,
      errorRecoveries = 0\<rparr>"

text \<open>
  What a call of \<open>callAIProvider\<close> gives: the trimmed content of the first choice, or an
  exception (a response that is not ok, or one without choices). The two providers are
  remote, so what each would answer is an argument of \<open>processIntelligence\<close>.
\<close>

datatype provider_reply = Reply string | ProviderError string

datatype provider = Primary | Fallback

text \<open>
  What the caller gets: a provider's answer, or the built-in answer (a fixed sentence picked
  by keyword from the prompt; its text is left out).
\<close>

datatype intelligence = Answer provider string | BuiltIn

text \<open>
  \<open>processIntelligence\<close>. The primary is tried if it is marked available. A non-empty
  answer is returned (\<open>if (response)\<close>: the empty string is falsy and falls through
  without counting as an error). An exception increments \<open>errorCount\<close> and, once the count
  is above 5, clears \<open>available\<close>. Then the same for the fallback, whose exception only
  increments its count. Then the built-in answer. \<open>learnFromIntelligence\<close> catches its own
  exceptions and touches none of these fields. The outer \<open>catch\<close> (the emergency answer)
  is reached only from \<open>buildIntelligentContext\<close>, before any provider is called, and not at
  all with a context object; it has no branch here. The result is the answer, the providers
  called in order, and the engine afterwards.
\<close>

definition processIntelligence ::
  "provider_reply \<Rightarrow> provider_reply \<Rightarrow> AIEngine \<Rightarrow> intelligence \<times> provider list \<times> AIEngine" where
  "processIntelligence primaryReply fallbackReply e =
     (let afterPrimary =
            (if available_s (primary e) then
               (case primaryReply of
                  Reply r \<Rightarrow>
                    if r \<noteq> []
                    then (Some (Answer Primary r), [Primary],
                          e\<lparr>primaryProviderUsage := Suc (primaryProviderUsage e),
                            decisionsGenerated := Suc (decisionsGenerated e)\<rparr>)
                    else (None, [Primary], e)
                | ProviderError m \<Rightarrow>
                    (None, [Primary],
                     e\<lparr>primary := (primary e)
                          \<lparr>errorCount_s := Suc (errorCount_s (primary e)),
                           available_s := (if Suc (errorCount_s (primary e)) > 5 then False
                                           else available_s (primary e))\<rparr>\<rparr>))
             else (None, [], e))
      in case afterPrimary of
           (Some answer, calls, e1) \<Rightarrow> (answer, calls, e1)
         | (None, calls, e1) \<Rightarrow>
             (if available_s (fallback e1) then
                (case fallbackReply of
                   Reply r \<Rightarrow>
                     if r \<noteq> []
                     then (Answer Fallback r, calls @ [Fallback],
                           e1\<lparr>fallbackProviderUsage := Suc (fallbackProviderUsage e1),
                              decisionsGenerated := Suc (decisionsGenerated e1),
                              errorRecoveries := Suc (errorRecoveries e1)\<rparr>)
                     else (BuiltIn, calls @ [Fallback], e1)
                 | ProviderError m \<Rightarrow>
                     (BuiltIn, calls @ [Fallback],
                      e1\<lparr>fallback := (fallback e1)
                            \<lparr>errorCount_s := Suc (errorCount_s (fallback e1))\<rparr>\<rparr>))
              else (BuiltIn, calls, e1)))"

text \<open>A series of requests, each with what the two providers would answer.\<close>

fun serve :: "(provider_reply \<times> provider_reply) list \<Rightarrow> AIEngine \<Rightarrow> AIEngine" where
  "serve [] e = e"
| "serve ((p, f) # rs) e = serve rs (snd (snd (processIntelligence p f e)))"

text \<open>The number of requests in a series at which the primary, if called, fails.\<close>

fun primaryFailures :: "(provider_reply \<times> provider_reply) list \<Rightarrow> nat" where
  "primaryFailures [] = 0"
| "primaryFailures ((ProviderError m, f) # rs) = Suc (primaryFailures rs)"
| "primaryFailures ((Reply r, f) # rs) = primaryFailures rs"


section \<open>Reading a run\<close>

text \<open>The listeners whose handler was called, in call order.\<close>

fun invoked :: "effect list \<Rightarrow> listener list" where
  "invoked [] = []"
| "invoked (ListenerCall l a # tr) = l # invoked tr"
| "invoked (e # tr) = invoked tr"

text \<open>The middleware of type \<open>'error'\<close> that was called, with the arguments of the call.\<close>

fun errorMiddlewareCalls :: "effect list \<Rightarrow> (middlewareItem \<times> jsval list) list" where
  "errorMiddlewareCalls [] = []"
| "errorMiddlewareCalls (MiddlewareCall m a # tr) =
     (if type_m m = ''error'' then (m, a) # errorMiddlewareCalls tr
      else errorMiddlewareCalls tr)"
| "errorMiddlewareCalls (e # tr) = errorMiddlewareCalls tr"

text \<open>The listeners whose handler failed (threw or overran), with the error logged.\<close>

fun failures :: "effect list \<Rightarrow> (listener \<times> jsval) list" where
  "failures [] = []"
| "failures (ListenerError l e # tr) = (l, e) # failures tr"
| "failures (e # tr) = failures tr"

text \<open>
  A listener's own filter lets the arguments through; its handler, called on them, returns
  in time.
\<close>

definition accepts :: "listener \<Rightarrow> jsval list \<Rightarrow> bool" where
  "accepts l a = ((case filter_l l of None \<Rightarrow> Accepts | Some f \<Rightarrow> f a) = Accepts)"

definition completes :: "listener \<Rightarrow> jsval list \<Rightarrow> bool" where
  "completes l a = (accepts l a \<and> handler l a = Returns)"

text \<open>The listener's turn ends in the \<open>catch\<close> of the loop.\<close>

definition fails :: "listener \<Rightarrow> jsval list \<Rightarrow> bool" where
  "fails l a = (case fst (tryListener l a) of Failed e \<Rightarrow> True | _ \<Rightarrow> False)"

text \<open>The condition under which the loop calls \<open>off\<close> for the listener it has just run.\<close>

definition fires :: "listener \<Rightarrow> jsval list \<Rightarrow> bool" where
  "fires l a = (fst (tryListener l a) = Completed \<and> once l)"

text \<open>
  The listeners whose turn comes when the loop runs over an array: all of them in order,
  except that the one standing right behind a one-shot listener that completes has no turn
  (the loop's position moves on while the array closes up).
\<close>

fun reached :: "jsval list \<Rightarrow> listener list \<Rightarrow> listener list" where
  "reached a [] = []"
| "reached a [l] = [l]"
| "reached a (l # l' # ls) = l # (if fires l a then reached a ls else reached a (l' # ls))"

text \<open>
  The dispatcher at rest: no run in progress and nothing queued, as it is between two
  emits that are each awaited. (Both limits are positive in the constructor's
  configuration.)
\<close>

definition idle :: "EventSystem \<Rightarrow> bool" where
  "idle es = (\<not> isProcessing es \<and> eventQueue es = []
              \<and> 0 < maxQueueSize (config es) \<and> 0 < concurrentEvents (config es))"

text \<open>The event passes the event filters of its name (or filtering is switched off).\<close>

definition admitted :: "string \<Rightarrow> jsval list \<Rightarrow> EventSystem \<Rightarrow> bool" where
  "admitted n a es = (if enableFiltering (config es) then fst (applyEventFilters n a es) else True)"


text \<open>Several calls of \<open>on\<close> for one event name, one after the other.\<close>

fun registerAll ::
  "string \<Rightarrow> ((jsval list \<Rightarrow> handler_outcome) \<times> options \<times> nat) list \<Rightarrow> EventSystem
     \<Rightarrow> EventSystem" where
  "registerAll n [] es = es"
| "registerAll n ((h, opts, t) # rs) es = registerAll n rs (snd (on n h opts t es))"


section \<open>Concrete systems for the examples\<close>

definition returning :: "jsval list \<Rightarrow> handler_outcome" where
  "returning a = Returns"

definition throwing :: "jsval list \<Rightarrow> handler_outcome" where
  "throwing a = Throws (JErr ''boom'')"

definition builtinReturning :: "string \<Rightarrow> jsval list \<Rightarrow> handler_outcome" where
  "builtinReturning n a = Returns"

text \<open>\<open>new EventSystem()\<close> at time 1000.\<close>

definition freshSystem :: EventSystem where
  "freshSystem = newEventSystem builtinReturning 1000"

text \<open>One listener registered on \<open>msg\<close>; the id is the one \<open>on\<close> returned.\<close>

definition oneListener :: EventSystem where
  "oneListener = snd (on ''msg'' returning noOptions 1001 freshSystem)"

text \<open>A second registration on \<open>msg\<close> in the same millisecond, again without an explicit id.\<close>

definition twoSameMs :: EventSystem where
  "twoSameMs = snd (on ''msg'' returning noOptions 1001 oneListener)"




text \<open>
  Four listeners registered on \<open>msg\<close> with explicit ids: B (priority 5), then A (priority
  1, its handler throws), then C (priority 5), then D (priority 1).
\<close>

definition withPriority :: "string \<Rightarrow> int \<Rightarrow> options" where
  "withPriority i p = noOptions\<lparr>priority_o := Some p, id_o := Some i\<rparr>"

definition fourRegistrations ::
  "((jsval list \<Rightarrow> handler_outcome) \<times> options \<times> nat) list" where
  "fourRegistrations =
     [(returning, withPriority ''B'' 5, 1001), (throwing, withPriority ''A'' 1, 1002),
      (returning, withPriority ''C'' 5, 1003), (returning, withPriority ''D'' 1, 1004)]"

definition fourListeners :: EventSystem where
  "fourListeners = registerAll ''msg'' fourRegistrations freshSystem"

text \<open>The four listeners on \<open>msg\<close>, and a listener L on a second name, \<open>log\<close>.\<close>

definition twoNames :: EventSystem where
  "twoNames = snd (on ''log'' returning (withPriority ''L'' 5) 1005 fourListeners)"

text \<open>
  On \<open>msg\<close>: T, whose handler throws; A, one-shot, whose handler returns; then B.
\<close>

definition skipAfterOnce :: EventSystem where
  "skipAfterOnce =
     registerAll ''msg''
       [(throwing, withPriority ''T'' 1, 1001),
        (returning, (withPriority ''A'' 2)\<lparr>once_o := True\<rparr>, 1002),
        (returning, withPriority ''B'' 3, 1003)] freshSystem"

text \<open>On \<open>msg\<close>: T, whose handler throws, and F, whose own filter rejects every event.\<close>

definition rejecting :: "jsval list \<Rightarrow> verdict" where
  "rejecting a = Rejects"

definition rejectedByFilter :: EventSystem where
  "rejectedByFilter =
     registerAll ''msg''
       [(throwing, withPriority ''T'' 1, 1001),
        (returning, (withPriority ''F'' 2)\<lparr>filter_o := Some rejecting\<rparr>, 1002)] freshSystem"

text \<open>
  On \<open>test\<close>: a middleware E of type \<open>'error'\<close> (\<open>use('test', mw, { type: 'error' })\<close>) and a
  listener X whose handler throws.
\<close>

definition noting :: "jsval list \<Rightarrow> call_outcome" where
  "noting a = Done"

definition errorPhase :: mw_options where
  "errorPhase = \<lparr>priority_mo = None, id_mo = Some ''E'', type_mo = Some ''error''\<rparr>"

definition withErrorMiddleware :: EventSystem where
  "withErrorMiddleware =
     snd (on ''test'' throwing (withPriority ''X'' 5) 1002
            (snd (use ''test'' noting errorPhase 1001 freshSystem)))"




text \<open>\<open>once('msg', handler)\<close> on the fresh dispatcher, with a handler that throws.\<close>

definition onceThrows :: EventSystem where
  "onceThrows = snd (once_on ''msg'' throwing noOptions 1001 freshSystem)"

definition listenerOnceThrows :: listener where
  "listenerOnceThrows =
     \<lparr>handler = throwing, priority = 5, type_l = ''custom'', id_l = ''custom_msg_1001'',
      once = True, filter_l = None, timeout = Some 30000\<rparr>"


text \<open>
  A response whose headers report \<open>remaining = 0\<close> and \<open>reset-after = 2\<close> (seconds: the
  code multiplies by 1000, so 2000 ms).
\<close>

definition zeroRemaining :: "string \<rightharpoonup> string" where
  "zeroRemaining = [''x-ratelimit-remaining'' \<mapsto> ''0'', ''x-ratelimit-reset-after'' \<mapsto> ''2'']"

definition limitedResponse :: response where
  "limitedResponse = \<lparr>ok = True, status = 200, headers = zeroRemaining, body = ''{}''\<rparr>"

text \<open>Three dispatch frames with the sequence numbers 1, 2 and 5, and one with 0.\<close>

definition threeFrames :: "packet list" where
  "threeFrames =
     [\<lparr>op_p = 0, d_p = Ready ''bot'' ''session-1'' [''g1''], s_p = Some 1, t_p = Some ''READY''\<rparr>,
      \<lparr>op_p = 0, d_p = Opaque ''hello'', s_p = Some 2, t_p = Some ''MESSAGE_CREATE''\<rparr>,
      \<lparr>op_p = 0, d_p = Guild ''g1'' (Some [''c1'']), s_p = Some 5, t_p = Some ''GUILD_CREATE''\<rparr>]"

definition zeroFrame :: packet where
  "zeroFrame = \<lparr>op_p = 0, d_p = Opaque ''typing'', s_p = Some 0, t_p = Some ''TYPING_START''\<rparr>"

text \<open>
  A request at which the primary fails and the fallback answers; three and six of them in
  a row on a new engine.
\<close>

definition failing :: "provider_reply \<times> provider_reply" where
  "failing = (ProviderError ''AI Provider Error: 503'', Reply ''from the fallback'')"

definition threeFailures :: AIEngine where
  "threeFailures = serve [failing, failing, failing] newAIEngine"

definition sixFailures :: AIEngine where
  "sixFailures = serve [failing, failing, failing, failing, failing, failing] newAIEngine"

text \<open>Two listeners registered on \<open>msg\<close> under the same explicit id, \<open>X\<close>.\<close>

definition twoSameId :: EventSystem where
  "twoSameId =
     registerAll ''msg''
       [(returning, withPriority ''X'' 5, 1001), (throwing, withPriority ''X'' 5, 1002)]
       freshSystem"

text \<open>
  Five registrations on \<open>msg\<close>: B (priority 5), A (priority 1, one-shot), C (priority 5),
  D (priority 1, its handler throws), and E (no priority given).
\<close>

definition mixedRegistrations ::
  "((jsval list \<Rightarrow> handler_outcome) \<times> options \<times> nat) list" where
  "mixedRegistrations =
     [(returning, withPriority ''B'' 5, 1001),
      (returning, (withPriority ''A'' 1)\<lparr>once_o := True\<rparr>, 1002),
      (returning, withPriority ''C'' 5, 1003),
      (throwing, withPriority ''D'' 1, 1004),
      (returning, noOptions\<lparr>id_o := Some ''E''\<rparr>, 1005)]"

text \<open>
  On \<open>msg\<close>: A registered with priority 1 and a filter of its own that rejects every event,
  then B with priority 5. A registered with priority 0, then B with priority 3. A registered
  as a one-shot listener with priority 1, then B with priority 5.
\<close>

definition filteredFirst :: EventSystem where
  "filteredFirst =
     registerAll ''msg''
       [(returning, (withPriority ''A'' 1)\<lparr>filter_o := Some rejecting\<rparr>, 1001),
        (returning, withPriority ''B'' 5, 1002)] freshSystem"

definition zeroPriority :: EventSystem where
  "zeroPriority =
     registerAll ''msg''
       [(returning, withPriority ''A'' 0, 1001), (returning, withPriority ''B'' 3, 1002)]
       freshSystem"

definition onceFirst :: EventSystem where
  "onceFirst =
     registerAll ''msg''
       [(returning, (withPriority ''A'' 1)\<lparr>once_o := True\<rparr>, 1001),
        (returning, withPriority ''B'' 5, 1002)] freshSystem"

text \<open>
  On \<open>msg\<close>: T, whose handler throws; A, one-shot; then B, C and D. On \<open>log\<close>: L.
\<close>

definition sixListeners :: EventSystem where
  "sixListeners =
     snd (on ''log'' returning (withPriority ''L'' 5) 1006
       (registerAll ''msg''
          [(throwing, withPriority ''T'' 1, 1001),
           (returning, (withPriority ''A'' 2)\<lparr>once_o := True\<rparr>, 1002),
           (returning, withPriority ''B'' 3, 1003),
           (returning, withPriority ''C'' 4, 1004),
           (returning, withPriority ''D'' 5, 1005)] freshSystem))"




section \<open>Finding and splicing\<close>

lemma findIndex_Some:
  "findIndex P xs = Some k \<Longrightarrow> k < length xs \<and> P (xs ! k) \<and> (\<forall>j<k. \<not> P (xs ! j))"
proof (induction xs arbitrary: k)
  case Nil
  then show ?case by simp
next
  case (Cons x xs)
  show ?case
  proof (cases "P x")
    case True
    with Cons.prems show ?thesis by simp
  next
    case False
    with Cons.prems obtain k' where k': "findIndex P xs = Some k'" "k = Suc k'"
      by auto
    from Cons.IH [OF k'(1)] False k'(2) show ?thesis
      by (auto simp: nth_Cons split: nat.splits)
  qed
qed

lemma findIndex_None: "findIndex P xs = None \<longleftrightarrow> (\<forall>x\<in>set xs. \<not> P x)"
  by (induction xs) auto

lemma findIndex_first:
  "k < length xs \<Longrightarrow> P (xs ! k) \<Longrightarrow> \<forall>j<k. \<not> P (xs ! j) \<Longrightarrow> findIndex P xs = Some k"
proof (induction xs arbitrary: k)
  case Nil
  then show ?case by simp
next
  case (Cons x xs)
  show ?case
  proof (cases k)
    case 0
    with Cons.prems show ?thesis by simp
  next
    case (Suc k')
    with Cons.prems have "\<not> P x" by auto
    moreover have "findIndex P xs = Some k'"
      using Cons.prems Suc by (intro Cons.IH) auto
    ultimately show ?thesis using Suc by simp
  qed
qed

section \<open>What registration changes\<close>

lemma on_fields [simp]:
  "eventQueue (snd (on n h opts t es)) = eventQueue es"
  "isProcessing (snd (on n h opts t es)) = isProcessing es"
  "config (snd (on n h opts t es)) = config es"
  "middlewareStack (snd (on n h opts t es)) = middlewareStack es"
  "eventFilters (snd (on n h opts t es)) = eventFilters es"
  "m \<noteq> n \<Longrightarrow> eventListeners (snd (on n h opts t es)) m = eventListeners es m"
  "eventListeners (snd (on n h opts t es)) n
     = Some (sort_key priority (listenersOf es n @ [makeListener n h opts t es]))"
  "fst (on n h opts t es) = id_l (makeListener n h opts t es)"
  by (simp_all add: on_def Let_def)

lemma listenersOf_on [simp]:
  "listenersOf (snd (on n h opts t es)) n
     = sort_key priority (listenersOf es n @ [makeListener n h opts t es])"
  "m \<noteq> n \<Longrightarrow> listenersOf (snd (on n h opts t es)) m = listenersOf es m"
  by (simp_all add: listenersOf_def)

lemma once_on_fields [simp]:
  "eventQueue (snd (once_on n h opts t es)) = eventQueue es"
  "isProcessing (snd (once_on n h opts t es)) = isProcessing es"
  "config (snd (once_on n h opts t es)) = config es"
  "middlewareStack (snd (once_on n h opts t es)) = middlewareStack es"
  "eventFilters (snd (once_on n h opts t es)) = eventFilters es"
  "eventListeners (snd (once_on n h opts t es)) n
     = Some (sort_key priority
               (listenersOf es n @ [makeListener n h (opts\<lparr>once_o := True\<rparr>) t es]))"
  "listenersOf (snd (once_on n h opts t es)) n
     = sort_key priority (listenersOf es n @ [makeListener n h (opts\<lparr>once_o := True\<rparr>) t es])"
  by (simp_all add: once_on_def)

lemma use_fields [simp]:
  "eventQueue (snd (use n mw opts t es)) = eventQueue es"
  "isProcessing (snd (use n mw opts t es)) = isProcessing es"
  "config (snd (use n mw opts t es)) = config es"
  "eventListeners (snd (use n mw opts t es)) = eventListeners es"
  "eventFilters (snd (use n mw opts t es)) = eventFilters es"
  "listenersOf (snd (use n mw opts t es)) m = listenersOf es m"
  by (simp_all add: use_def Let_def listenersOf_def)


section \<open>The fresh dispatcher\<close>

lemma registerBuiltInEvent_fields [simp]:
  "eventQueue (registerBuiltInEvent n h t es) = eventQueue es"
  "isProcessing (registerBuiltInEvent n h t es) = isProcessing es"
  "config (registerBuiltInEvent n h t es) = config es"
  "middlewareStack (registerBuiltInEvent n h t es) = middlewareStack es"
  "eventFilters (registerBuiltInEvent n h t es) = eventFilters es"
  "m \<noteq> n \<Longrightarrow> eventListeners (registerBuiltInEvent n h t es) m = eventListeners es m"
  by (simp_all add: registerBuiltInEvent_def)

lemma fold_registerBuiltInEvent:
  "eventQueue (fold (\<lambda>n. registerBuiltInEvent n (b n) t) ns es) = eventQueue es
   \<and> isProcessing (fold (\<lambda>n. registerBuiltInEvent n (b n) t) ns es) = isProcessing es
   \<and> config (fold (\<lambda>n. registerBuiltInEvent n (b n) t) ns es) = config es
   \<and> middlewareStack (fold (\<lambda>n. registerBuiltInEvent n (b n) t) ns es) = middlewareStack es
   \<and> eventFilters (fold (\<lambda>n. registerBuiltInEvent n (b n) t) ns es) = eventFilters es
   \<and> (m \<notin> set ns \<longrightarrow>
        eventListeners (fold (\<lambda>n. registerBuiltInEvent n (b n) t) ns es) m
          = eventListeners es m)"
  by (induction ns arbitrary: es) simp_all

lemma msg_not_builtin: "''msg'' \<notin> set builtInEvents"
  by (simp add: builtInEvents_def)

lemma freshSystem_other:
  "n \<notin> set builtInEvents \<Longrightarrow> eventListeners freshSystem n = None"
  by (simp add: freshSystem_def newEventSystem_def fold_registerBuiltInEvent)

lemma freshSystem_fields [simp]:
  "eventListeners freshSystem ''msg'' = None"
  "eventQueue freshSystem = []"
  "isProcessing freshSystem = False"
  "config freshSystem =
     \<lparr>maxQueueSize = 1000, processingTimeout = 30000, enableMetrics = True,
      enableFiltering = True, concurrentEvents = 10, retryAttempts = 3\<rparr>"
  "middlewareStack freshSystem = Map.empty"
  "eventFilters freshSystem = Map.empty"
  using msg_not_builtin
  by (simp_all add: freshSystem_def newEventSystem_def fold_registerBuiltInEvent)

lemma decimal_1001 [simp]: "decimal 1001 = ''1001''"
  by (simp add: decimal.simps)


section \<open>Removing a listener\<close>

lemma no_match_after_splice:
  assumes "findIndex P xs = Some k" and "length (filter P xs) = 1"
  shows "\<forall>x\<in>set (splice1 k xs). \<not> P x"
proof -
  from findIndex_Some [OF assms(1)] have k: "k < length xs" "P (xs ! k)" by auto
  have "xs = take k xs @ xs ! k # drop (Suc k) xs"
    using k(1) by (simp add: id_take_nth_drop)
  then have "filter P xs = filter P (take k xs) @ xs ! k # filter P (drop (Suc k) xs)"
    using k(2) by (metis filter.simps(2) filter_append)
  with assms(2) have "filter P (take k xs) = []" "filter P (drop (Suc k) xs) = []"
    by auto
  then show ?thesis
    by (auto simp: splice1_def filter_empty_conv)
qed

lemma off_absent:
  assumes "i \<notin> set (map id_l (listenersOf es n))"
  shows "off n i es = (False, es)"
proof (cases "eventListeners es n")
  case None
  then show ?thesis by (simp add: off_def)
next
  case (Some ls)
  with assms have "findIndex (\<lambda>l. id_l l = i) ls = None"
    by (auto simp: findIndex_None listenersOf_def)
  with Some show ?thesis by (simp add: off_def spliceById_def)
qed

lemma listenersOf_upd [simp]:
  "listenersOf (es\<lparr>eventListeners := (eventListeners es)(n \<mapsto> ls)\<rparr>) n = ls"
  by (simp add: listenersOf_def)

lemma count_ids: "count_list (map id_l ls) i = length (filter (\<lambda>l. id_l l = i) ls)"
  by (induction ls) auto

section \<open>The listener loop, step by step\<close>

lemma tryListener_Completed: "fst (tryListener l a) = Completed \<longleftrightarrow> completes l a"
  by (auto simp: tryListener_def completes_def accepts_def
      split: verdict.splits handler_outcome.splits option.splits)

lemma invoked_append [simp]: "invoked (xs @ ys) = invoked xs @ invoked ys"
  by (induction xs rule: invoked.induct) auto

lemma invoked_tryListener: "invoked (snd (tryListener l a)) = (if accepts l a then [l] else [])"
  by (auto simp: tryListener_def accepts_def
      split: verdict.splits handler_outcome.splits option.splits)

text \<open>One turn of the loop, with the cases of the removal spelled out.\<close>

lemma listenersLoop_end: "length ls \<le> i \<Longrightarrow> listenersLoop a i ls = (ls, [])"
  by (simp add: listenersLoop.simps)

lemma fires_iff: "fires l a \<longleftrightarrow> once l \<and> completes l a"
  by (auto simp: fires_def tryListener_Completed)

lemma listenersLoop_keep:
  "i < length ls \<Longrightarrow> \<not> fires (ls ! i) a \<Longrightarrow>
   listenersLoop a i ls =
     (fst (listenersLoop a (Suc i) ls),
      snd (tryListener (ls ! i) a) @ snd (listenersLoop a (Suc i) ls))"
  by (subst listenersLoop.simps) (auto simp: Let_def fires_def)

lemma listenersLoop_remove:
  "i < length ls \<Longrightarrow> fires (ls ! i) a \<Longrightarrow>
   listenersLoop a i ls =
     (fst (listenersLoop a (Suc i) (snd (spliceById (id_l (ls ! i)) ls))),
      snd (tryListener (ls ! i) a)
        @ snd (listenersLoop a (Suc i) (snd (spliceById (id_l (ls ! i)) ls))))"
  by (subst listenersLoop.simps) (auto simp: Let_def fires_def)

text \<open>Induction along the loop: it stops, keeps the array, or splices it.\<close>

lemma listenersLoop_induct [case_names stop keep remove]:
  assumes stop: "\<And>a i ls. length ls \<le> i \<Longrightarrow> P a i ls"
    and keep: "\<And>a i ls. i < length ls \<Longrightarrow> \<not> fires (ls ! i) a \<Longrightarrow> P a (Suc i) ls \<Longrightarrow> P a i ls"
    and remove: "\<And>a i ls. i < length ls \<Longrightarrow> fires (ls ! i) a \<Longrightarrow>
                   P a (Suc i) (snd (spliceById (id_l (ls ! i)) ls)) \<Longrightarrow> P a i ls"
  shows "P a i ls"
proof (induction a i ls rule: listenersLoop.induct)
  case (1 a i ls)
  show ?case
  proof (cases "i < length ls")
    case False
    then show ?thesis by (simp add: stop)
  next
    case True
    have ih: "P a (Suc i) (if fst (tryListener (ls ! i) a) = Completed \<and> once (ls ! i)
                           then snd (spliceById (id_l (ls ! i)) ls) else ls)"
      by (rule "1.IH" [OF True refl refl refl])
    show ?thesis
    proof (cases "fires (ls ! i) a")
      case False
      then have "\<not> (fst (tryListener (ls ! i) a) = Completed \<and> once (ls ! i))"
        by (simp add: fires_def)
      with ih have "P a (Suc i) ls"
        by (simp only: if_False)
      with True False show ?thesis by (rule keep)
    next
      case fire: True
      then have "fst (tryListener (ls ! i) a) = Completed \<and> once (ls ! i)"
        by (simp add: fires_def)
      with ih have "P a (Suc i) (snd (spliceById (id_l (ls ! i)) ls))"
        by simp
      with True fire show ?thesis by (rule remove)
    qed
  qed
qed

text \<open>The splice is at or before the listener that has just run.\<close>

lemma spliceById_here:
  assumes "i < length ls"
  obtains k where "k \<le> i" and "findIndex (\<lambda>l. id_l l = id_l (ls ! i)) ls = Some k"
    and "snd (spliceById (id_l (ls ! i)) ls) = splice1 k ls"
proof -
  have "findIndex (\<lambda>l. id_l l = id_l (ls ! i)) ls \<noteq> None"
    using assms by (auto simp: findIndex_None)
  then obtain k where k: "findIndex (\<lambda>l. id_l l = id_l (ls ! i)) ls = Some k"
    by auto
  have "k \<le> i"
  proof (rule ccontr)
    assume "\<not> k \<le> i"
    then have "i < k" by simp
    with findIndex_Some [OF k] show False by blast
  qed
  with k that show ?thesis
    by (simp add: spliceById_def)
qed

lemma drop_splice1: "k \<le> i \<Longrightarrow> drop (Suc i) (splice1 k ls) = drop (Suc (Suc i)) ls"
  by (cases "k < length ls") (auto simp: splice1_def min_def)

lemma drop_after_removal:
  "i < length ls \<Longrightarrow> drop (Suc i) (snd (spliceById (id_l (ls ! i)) ls)) = drop (Suc (Suc i)) ls"
  by (erule spliceById_here) (simp add: drop_splice1)

text \<open>What the loop calls is a subsequence of what is left of the array.\<close>

lemma subseq_step:
  "subseq xs ys \<Longrightarrow> subseq ((if c then [y] else []) @ xs) (y # ys)"
  by auto

lemma subseq_drop_Suc: "subseq xs (drop (Suc n) ys) \<Longrightarrow> subseq xs (drop n ys)"
proof (cases "n < length ys")
  case True
  assume "subseq xs (drop (Suc n) ys)"
  then have "subseq xs (ys ! n # drop (Suc n) ys)"
    by (rule list_emb_Cons)
  then show ?thesis
    by (simp only: Cons_nth_drop_Suc [OF True])
next
  case False
  assume "subseq xs (drop (Suc n) ys)"
  with False show ?thesis by simp
qed

lemma invoked_listenersLoop_subseq:
  "subseq (invoked (snd (listenersLoop a i ls))) (drop i ls)"
proof (induction a i ls rule: listenersLoop_induct)
  case (stop a i ls)
  then show ?case by (simp add: listenersLoop_end)
next
  case (keep a i ls)
  from keep.IH
  have "subseq ((if accepts (ls ! i) a then [ls ! i] else [])
                  @ invoked (snd (listenersLoop a (Suc i) ls)))
          (ls ! i # drop (Suc i) ls)"
    by (rule subseq_step)
  then show ?case
    unfolding Cons_nth_drop_Suc [OF keep.hyps(1)] listenersLoop_keep [OF keep.hyps]
      snd_conv invoked_append invoked_tryListener .
next
  case (remove a i ls)
  let ?ls1 = "snd (spliceById (id_l (ls ! i)) ls)"
  from remove.IH
  have "subseq (invoked (snd (listenersLoop a (Suc i) ?ls1))) (drop (Suc (Suc i)) ls)"
    by (simp only: drop_after_removal [OF remove.hyps(1)])
  then have "subseq (invoked (snd (listenersLoop a (Suc i) ?ls1))) (drop (Suc i) ls)"
    by (rule subseq_drop_Suc)
  then have "subseq ((if accepts (ls ! i) a then [ls ! i] else [])
                       @ invoked (snd (listenersLoop a (Suc i) ?ls1)))
               (ls ! i # drop (Suc i) ls)"
    by (rule subseq_step)
  then show ?case
    unfolding Cons_nth_drop_Suc [OF remove.hyps(1)] listenersLoop_remove [OF remove.hyps]
      snd_conv invoked_append invoked_tryListener .
qed

lemma listenersLoop_no_fire:
  "\<forall>l\<in>set (drop i ls). \<not> fires l a \<Longrightarrow>
   listenersLoop a i ls = (ls, concat (map (\<lambda>l. snd (tryListener l a)) (drop i ls)))"
proof (induction a i ls rule: listenersLoop_induct)
  case (stop a i ls)
  then show ?case by (simp add: listenersLoop_end)
next
  case (keep a i ls)
  note d = Cons_nth_drop_Suc [OF keep.hyps(1), symmetric]
  from keep.prems have "\<forall>l\<in>set (drop (Suc i) ls). \<not> fires l a"
    by (simp add: d)
  from keep.IH [OF this] show ?case
    by (simp add: listenersLoop_keep [OF keep.hyps] d)
next
  case (remove a i ls)
  from remove.prems remove.hyps show ?case
    by (simp add: Cons_nth_drop_Suc [symmetric])
qed

lemma invoked_concat_tryListener:
  "invoked (concat (map (\<lambda>l. snd (tryListener l a)) ls)) = filter (\<lambda>l. accepts l a) ls"
  by (induction ls) (simp_all add: invoked_tryListener)

lemma failures_append [simp]: "failures (xs @ ys) = failures xs @ failures ys"
  by (induction xs rule: failures.induct) auto

lemma errorMiddlewareCalls_append [simp]:
  "errorMiddlewareCalls (xs @ ys) = errorMiddlewareCalls xs @ errorMiddlewareCalls ys"
  by (induction xs rule: errorMiddlewareCalls.induct) auto




text \<open>With distinct ids the splice is at the listener that has just run.\<close>

lemma spliceById_distinct:
  assumes "distinct (map id_l ls)" and "i < length ls"
  shows "snd (spliceById (id_l (ls ! i)) ls) = splice1 i ls"
proof -
  from assms(2) obtain k where k: "k \<le> i" "findIndex (\<lambda>l. id_l l = id_l (ls ! i)) ls = Some k"
    and s: "snd (spliceById (id_l (ls ! i)) ls) = splice1 k ls"
    by (rule spliceById_here)
  from findIndex_Some [OF k(2)] have "k < length ls" "map id_l ls ! k = map id_l ls ! i"
    using assms(2) by simp_all
  with assms have "k = i"
    using nth_eq_iff_index_eq [of "map id_l ls" k i] by simp
  with s show ?thesis by simp
qed

lemma distinct_splice1: "distinct (map f ls) \<Longrightarrow> distinct (map f (splice1 k ls))"
proof -
  assume d: "distinct (map f ls)"
  have "map f ls = map f (take k ls) @ map f (drop k ls)"
    by (metis append_take_drop_id map_append)
  with d have "distinct (map f (take k ls) @ map f (drop k ls))" by simp
  then have "distinct (map f (take k ls) @ tl (map f (drop k ls)))"
    by (cases "map f (drop k ls)") auto
  moreover have "tl (map f (drop k ls)) = map f (drop (Suc k) ls)"
    by (metis map_tl tl_drop drop_Suc)
  ultimately show ?thesis
    by (simp add: splice1_def)
qed

lemma subseq_set: "subseq xs ys \<Longrightarrow> set xs \<subseteq> set ys"
  by (induction rule: list_emb.induct) auto

lemma subseq_sorted_map: "subseq xs ys \<Longrightarrow> sorted (map f ys) \<Longrightarrow> sorted (map f xs)"
proof (induction rule: list_emb.induct)
  case (list_emb_Nil ys)
  then show ?case by simp
next
  case (list_emb_Cons xs ys y)
  then show ?case by simp
next
  case (list_emb_Cons2 x y xs ys)
  then have "set xs \<subseteq> set ys" by (simp add: subseq_set)
  with list_emb_Cons2 show ?case by auto
qed

lemma in_splice1: "l \<in> set ls \<Longrightarrow> l \<noteq> ls ! i \<Longrightarrow> l \<in> set (splice1 i ls)"
proof (cases "i < length ls")
  case True
  assume "l \<in> set ls" "l \<noteq> ls ! i"
  moreover have "ls = take i ls @ ls ! i # drop (Suc i) ls"
    using True by (simp add: id_take_nth_drop)
  ultimately have "l \<in> set (take i ls) \<union> set (drop (Suc i) ls)"
    by (metis Un_iff set_ConsD set_append)
  then show ?thesis by (simp add: splice1_def)
next
  case False
  assume "l \<in> set ls"
  with False show ?thesis by (simp add: splice1_def)
qed

lemma fires_accepts: "fires l a \<Longrightarrow> accepts l a"
  by (simp add: fires_iff completes_def)

text \<open>With distinct ids, a listener leaves the array only by having just completed.\<close>

lemma removed_only_if_fired:
  "distinct (map id_l ls) \<Longrightarrow> l \<in> set ls \<Longrightarrow> l \<notin> set (fst (listenersLoop a i ls)) \<Longrightarrow>
   fires l a \<and> l \<in> set (invoked (snd (listenersLoop a i ls)))"
proof (induction a i ls rule: listenersLoop_induct)
  case (stop a i ls)
  then show ?case by (simp add: listenersLoop_end)
next
  case (keep a i ls)
  from keep.prems(3) have "l \<notin> set (fst (listenersLoop a (Suc i) ls))"
    by (simp add: listenersLoop_keep [OF keep.hyps])
  from keep.IH [OF keep.prems(1,2) this] show ?case
    by (simp add: listenersLoop_keep [OF keep.hyps])
next
  case (remove a i ls)
  let ?ls1 = "snd (spliceById (id_l (ls ! i)) ls)"
  have s: "?ls1 = splice1 i ls"
    using remove.prems(1) remove.hyps(1) by (rule spliceById_distinct)
  show ?case
  proof (cases "l = ls ! i")
    case True
    with remove.hyps show ?thesis
      by (simp add: listenersLoop_remove [OF remove.hyps] invoked_tryListener fires_accepts)
  next
    case False
    with remove.prems(2) have in1: "l \<in> set ?ls1"
      by (simp add: s in_splice1)
    have d1: "distinct (map id_l ?ls1)"
      using remove.prems(1) by (simp add: s distinct_splice1)
    from remove.prems(3) have "l \<notin> set (fst (listenersLoop a (Suc i) ?ls1))"
      by (simp add: listenersLoop_remove [OF remove.hyps])
    from remove.IH [OF d1 in1 this] show ?thesis
      by (simp add: listenersLoop_remove [OF remove.hyps])
  qed
qed

text \<open>
  Up to the first listener that completes as a one-shot, the loop keeps the array; there it
  splices that listener out (no earlier listener carries its id) and goes on behind it.
\<close>

lemma listenersLoop_first_fire:
  assumes "\<forall>l\<in>set pre. \<not> fires l a" and "fires x a" and "id_l x \<notin> id_l ` set pre"
    and "i \<le> length pre"
  shows "listenersLoop a i (pre @ x # post) =
           (fst (listenersLoop a (Suc (length pre)) (pre @ post)),
            concat (map (\<lambda>l. snd (tryListener l a)) (drop i pre)) @ snd (tryListener x a)
              @ snd (listenersLoop a (Suc (length pre)) (pre @ post)))"
  using assms(4)
proof (induction "length pre - i" arbitrary: i)
  case 0
  then have i: "i = length pre" by simp
  have len: "i < length (pre @ x # post)" by (simp add: i)
  have at: "(pre @ x # post) ! i = x" by (simp add: i)
  from len obtain k where k: "k \<le> i"
      "findIndex (\<lambda>l. id_l l = id_l ((pre @ x # post) ! i)) (pre @ x # post) = Some k"
    and s: "snd (spliceById (id_l ((pre @ x # post) ! i)) (pre @ x # post))
              = splice1 k (pre @ x # post)"
    by (rule spliceById_here)
  have "k = i"
  proof (rule ccontr)
    assume "k \<noteq> i"
    with k(1) i have "k < length pre" by simp
    with findIndex_Some [OF k(2)] at have "id_l (pre ! k) = id_l x" "pre ! k \<in> set pre"
      by (simp_all add: nth_append)
    with assms(3) show False by (metis imageI)
  qed
  with s have "snd (spliceById (id_l x) (pre @ x # post)) = pre @ post"
    by (simp add: at i splice1_def)
  with listenersLoop_remove [OF len] assms(2) show ?case
    by (simp add: at i)
next
  case (Suc d)
  then have lt: "i < length pre" by simp
  then have len: "i < length (pre @ x # post)" by simp
  have at: "(pre @ x # post) ! i = pre ! i" using lt by (simp add: nth_append)
  have nf: "\<not> fires ((pre @ x # post) ! i) a"
    using assms(1) lt by (simp add: at)
  have "d = length pre - Suc i" "Suc i \<le> length pre"
    using Suc.hyps(2) lt by simp_all
  from Suc.hyps(1) [OF this] show ?case
    by (simp add: listenersLoop_keep [OF len nf] at Cons_nth_drop_Suc [OF lt, symmetric])
qed

lemma failures_tryListener:
  "map fst (failures (snd (tryListener l a))) = (if fails l a then [l] else [])"
  by (simp add: tryListener_def fails_def
      split: verdict.splits handler_outcome.splits option.splits)

lemma failures_concat_tryListener:
  "map fst (failures (concat (map (\<lambda>l. snd (tryListener l a)) ls))) = filter (\<lambda>l. fails l a) ls"
  by (induction ls) (simp_all add: failures_tryListener)

section \<open>Whose turn comes\<close>

lemma reached_Cons:
  "reached a (l # ls) = l # (if fires l a then reached a (tl ls) else reached a ls)"
  by (cases ls) simp_all

text \<open>What a run of the loop does, from position \<open>i\<close> on.\<close>

lemma listenersLoop_trace:
  "snd (listenersLoop a i ls) = concat (map (\<lambda>l. snd (tryListener l a)) (reached a (drop i ls)))"
proof (induction a i ls rule: listenersLoop_induct)
  case (stop a i ls)
  then show ?case by (simp add: listenersLoop_end)
next
  case (keep a i ls)
  note d = Cons_nth_drop_Suc [OF keep.hyps(1), symmetric]
  from keep.IH keep.hyps(2) show ?case
    by (simp add: listenersLoop_keep [OF keep.hyps] d reached_Cons)
next
  case (remove a i ls)
  note d = Cons_nth_drop_Suc [OF remove.hyps(1), symmetric]
  have "tl (drop (Suc i) ls) = drop (Suc (Suc i)) ls"
    by (simp add: drop_Suc tl_drop)
  with remove.IH remove.hyps(2) show ?case
    by (simp add: listenersLoop_remove [OF remove.hyps] d reached_Cons
          drop_after_removal [OF remove.hyps(1)])
qed

lemma listenersLoop_invoked:
  "invoked (snd (listenersLoop a i ls)) = filter (\<lambda>l. accepts l a) (reached a (drop i ls))"
  by (simp add: listenersLoop_trace invoked_concat_tryListener)

lemma listenersLoop_failures:
  "map fst (failures (snd (listenersLoop a i ls))) = filter (\<lambda>l. fails l a) (reached a (drop i ls))"
  by (simp add: listenersLoop_trace failures_concat_tryListener)

lemma subseq_reached: "subseq (reached a ls) ls"
  by (induction a ls rule: reached.induct) (auto intro: subseq_Cons' list_emb_Cons)

lemma reached_no_fire: "\<forall>l\<in>set ls. \<not> fires l a \<Longrightarrow> reached a ls = ls"
  by (induction a ls rule: reached.induct) auto

text \<open>
  A listener has its turn unless the one right before it in the array is a one-shot listener
  that completes.
\<close>

lemma reached_nth:
  "j < length ls \<Longrightarrow> j = 0 \<or> \<not> fires (ls ! (j - 1)) a \<Longrightarrow> ls ! j \<in> set (reached a ls)"
proof (induction a ls arbitrary: j rule: reached.induct)
  case (1 a)
  then show ?case by simp
next
  case (2 a l)
  then show ?case by simp
next
  case (3 a l l' ls)
  show ?case
  proof (cases j)
    case 0
    then show ?thesis by simp
  next
    case (Suc j')
    show ?thesis
    proof (cases "fires l a")
      case True
      with "3.prems"(2) Suc obtain j'' where j'': "j' = Suc j''"
        by (cases j') auto
      have "j'' < length ls" using "3.prems"(1) Suc j'' by simp
      moreover have "j'' = 0 \<or> \<not> fires (ls ! (j'' - 1)) a"
        using "3.prems"(2) Suc j'' by (cases j'') auto
      ultimately have "ls ! j'' \<in> set (reached a ls)"
        using "3.IH"(1) [OF True] by blast
      with True Suc j'' show ?thesis by simp
    next
      case False
      have "j' < length (l' # ls)" using "3.prems"(1) Suc by simp
      moreover have "j' = 0 \<or> \<not> fires ((l' # ls) ! (j' - 1)) a"
        using "3.prems"(2) Suc by (cases j') auto
      ultimately have "(l' # ls) ! j' \<in> set (reached a (l' # ls))"
        using "3.IH"(2) [OF False] by blast
      with False Suc show ?thesis by simp
    qed
  qed
qed






section \<open>What a run leaves unchanged\<close>

lemma filtersLoop_effects [simp]:
  "invoked (snd (filtersLoop fs k a)) = []"
  "failures (snd (filtersLoop fs k a)) = []"
  "errorMiddlewareCalls (snd (filtersLoop fs k a)) = []"
  by (induction fs arbitrary: k; simp add: split_beta split: verdict.splits)+

lemma applyEventFilters_effects [simp]:
  "invoked (snd (applyEventFilters n a es)) = []"
  "failures (snd (applyEventFilters n a es)) = []"
  "errorMiddlewareCalls (snd (applyEventFilters n a es)) = []"
  by (simp_all add: applyEventFilters_def)

lemma middlewareLoop_fields [simp]:
  "eventListeners (fst (middlewareLoop ms a es)) = eventListeners es"
  "middlewareStack (fst (middlewareLoop ms a es)) = middlewareStack es"
  "eventQueue (fst (middlewareLoop ms a es)) = eventQueue es"
  "eventFilters (fst (middlewareLoop ms a es)) = eventFilters es"
  "config (fst (middlewareLoop ms a es)) = config es"
  "isProcessing (fst (middlewareLoop ms a es)) = isProcessing es"
  "eventsQueued (metrics (fst (middlewareLoop ms a es))) = eventsQueued (metrics es)"
  by (induction ms arbitrary: es; simp add: split_beta split: call_outcome.splits)+

lemma middlewareLoop_effects [simp]:
  "invoked (snd (middlewareLoop ms a es)) = []"
  "failures (snd (middlewareLoop ms a es)) = []"
  by (induction ms arbitrary: es; simp add: split_beta split: call_outcome.splits)+

lemma middlewareLoop_errorCalls:
  "errorMiddlewareCalls (snd (middlewareLoop ms a es))
     = map (\<lambda>m. (m, a)) (filter (\<lambda>m. type_m m = ''error'') ms)"
  by (induction ms arbitrary: es) (simp_all add: split_beta split: call_outcome.splits)

lemma executeMiddleware_fields [simp]:
  "eventListeners (fst (executeMiddleware n ty a es)) = eventListeners es"
  "middlewareStack (fst (executeMiddleware n ty a es)) = middlewareStack es"
  "eventQueue (fst (executeMiddleware n ty a es)) = eventQueue es"
  "eventFilters (fst (executeMiddleware n ty a es)) = eventFilters es"
  "config (fst (executeMiddleware n ty a es)) = config es"
  "isProcessing (fst (executeMiddleware n ty a es)) = isProcessing es"
  "eventsQueued (metrics (fst (executeMiddleware n ty a es))) = eventsQueued (metrics es)"
  "invoked (snd (executeMiddleware n ty a es)) = []"
  "failures (snd (executeMiddleware n ty a es)) = []"
  by (simp_all add: executeMiddleware_def)

lemma executeMiddleware_errorCalls:
  "ty \<noteq> ''error'' \<Longrightarrow> errorMiddlewareCalls (snd (executeMiddleware n ty a es)) = []"
  by (simp add: executeMiddleware_def middlewareLoop_errorCalls filter_empty_conv)

lemma errorMiddlewareCalls_tryListener [simp]:
  "errorMiddlewareCalls (snd (tryListener l a)) = []"
  by (simp add: tryListener_def split: verdict.splits handler_outcome.splits option.splits)

lemma errorMiddlewareCalls_listenersLoop [simp]:
  "errorMiddlewareCalls (snd (listenersLoop a i ls)) = []"
  by (induction a i ls rule: listenersLoop_induct)
     (simp_all add: listenersLoop_end listenersLoop_keep listenersLoop_remove)

lemma executeEventListeners_fields [simp]:
  "middlewareStack (fst (executeEventListeners n a es)) = middlewareStack es"
  "eventQueue (fst (executeEventListeners n a es)) = eventQueue es"
  "eventFilters (fst (executeEventListeners n a es)) = eventFilters es"
  "config (fst (executeEventListeners n a es)) = config es"
  "isProcessing (fst (executeEventListeners n a es)) = isProcessing es"
  "eventsQueued (metrics (fst (executeEventListeners n a es))) = eventsQueued (metrics es)"
  "m \<noteq> n \<Longrightarrow> eventListeners (fst (executeEventListeners n a es)) m = eventListeners es m"
  by (simp_all add: executeEventListeners_def Let_def split: option.splits)

lemma executeEventListeners_run:
  "listenersOf (fst (executeEventListeners n a es)) n = fst (listenersLoop a 0 (listenersOf es n))"
  "snd (executeEventListeners n a es) = snd (listenersLoop a 0 (listenersOf es n))"
  by (simp_all add: executeEventListeners_def Let_def listenersOf_def listenersLoop_end
        split: option.splits)

lemma listenersOf_cong: "eventListeners es = eventListeners es' \<Longrightarrow> listenersOf es = listenersOf es'"
  by (auto simp: listenersOf_def)

lemma updateEventMetrics_fields [simp]:
  "eventListeners (updateEventMetrics n es) = eventListeners es"
  "middlewareStack (updateEventMetrics n es) = middlewareStack es"
  "eventQueue (updateEventMetrics n es) = eventQueue es"
  "eventFilters (updateEventMetrics n es) = eventFilters es"
  "config (updateEventMetrics n es) = config es"
  "isProcessing (updateEventMetrics n es) = isProcessing es"
  "eventsQueued (metrics (updateEventMetrics n es)) = eventsQueued (metrics es)"
  by (simp_all add: updateEventMetrics_def)

text \<open>One event, in terms of the listener loop on the array of its name.\<close>

lemma processEvent_fields [simp]:
  "middlewareStack (fst (processEvent ev es)) = middlewareStack es"
  "eventQueue (fst (processEvent ev es)) = eventQueue es"
  "eventFilters (fst (processEvent ev es)) = eventFilters es"
  "config (fst (processEvent ev es)) = config es"
  "isProcessing (fst (processEvent ev es)) = isProcessing es"
  "eventsQueued (metrics (fst (processEvent ev es))) = eventsQueued (metrics es)"
  "m \<noteq> name ev \<Longrightarrow> eventListeners (fst (processEvent ev es)) m = eventListeners es m"
  by (simp_all add: processEvent_def Let_def)

lemma processEvent_run:
  "listenersOf (fst (processEvent ev es)) (name ev) =
     (if admitted (name ev) (args ev) es
      then fst (listenersLoop (args ev) 0 (listenersOf es (name ev)))
      else listenersOf es (name ev))"
  "invoked (snd (processEvent ev es)) =
     (if admitted (name ev) (args ev) es
      then invoked (snd (listenersLoop (args ev) 0 (listenersOf es (name ev))))
      else [])"
  "errorMiddlewareCalls (snd (processEvent ev es)) = []"
proof -
  have l: "listenersOf (fst (executeMiddleware (name ev) ''pre'' (args ev) es)) = listenersOf es"
    by (rule listenersOf_cong) simp
  have u: "\<And>n es'. listenersOf (updateEventMetrics n es') = listenersOf es'"
    by (rule listenersOf_cong) simp
  have m: "\<And>n ty a es'. listenersOf (fst (executeMiddleware n ty a es')) = listenersOf es'"
    by (rule listenersOf_cong) simp
  show "listenersOf (fst (processEvent ev es)) (name ev) =
     (if admitted (name ev) (args ev) es
      then fst (listenersLoop (args ev) 0 (listenersOf es (name ev)))
      else listenersOf es (name ev))"
    by (simp add: processEvent_def Let_def admitted_def u m executeEventListeners_run)
  show "invoked (snd (processEvent ev es)) =
     (if admitted (name ev) (args ev) es
      then invoked (snd (listenersLoop (args ev) 0 (listenersOf es (name ev))))
      else [])"
    by (simp add: processEvent_def Let_def admitted_def m executeEventListeners_run)
  show "errorMiddlewareCalls (snd (processEvent ev es)) = []"
    by (simp add: processEvent_def Let_def executeMiddleware_errorCalls executeEventListeners_run)
qed

lemma processBatch_errorCalls [simp]: "errorMiddlewareCalls (snd (processBatch evs es)) = []"
  by (induction evs arbitrary: es) (simp_all add: Let_def processEvent_run)

lemma processBatch_fields [simp]:
  "eventQueue (fst (processBatch evs es)) = eventQueue es"
  "config (fst (processBatch evs es)) = config es"
  "eventsQueued (metrics (fst (processBatch evs es))) = eventsQueued (metrics es)"
  by (induction evs arbitrary: es; simp add: Let_def)+

section \<open>Emitting\<close>

lemma processEventQueue_errorCalls [simp]:
  "errorMiddlewareCalls (snd (processEventQueue es)) = []"
  by (simp add: processEventQueue_def Let_def)

lemma emit_errorCalls: "errorMiddlewareCalls (snd (snd (emit n a t es))) = []"
  by (simp add: emit_def Let_def)


lemma admitted_cong:
  "config es = config es' \<Longrightarrow> eventFilters es = eventFilters es' \<Longrightarrow>
   admitted n a es = admitted n a es'"
  by (simp add: admitted_def applyEventFilters_def)

text \<open>
  At rest, \<open>emit\<close> runs exactly the event it was given: the batch is that one event, and the
  dispatcher is at rest again afterwards.
\<close>

lemma emit_idle_eq:
  assumes "idle es"
  shows "emit n a t es =
    (True,
     (fst (processEvent \<lparr>name = n, args = a, timestamp = t\<rparr>
        (es\<lparr>metrics := (metrics es)\<lparr>eventsQueued := eventsQueued (metrics es) + 1\<rparr>,
            isProcessing := True, eventQueue := []\<rparr>)))\<lparr>isProcessing := False\<rparr>,
     snd (processEvent \<lparr>name = n, args = a, timestamp = t\<rparr>
        (es\<lparr>metrics := (metrics es)\<lparr>eventsQueued := eventsQueued (metrics es) + 1\<rparr>,
            isProcessing := True, eventQueue := []\<rparr>)))"
  using assms
  by (simp add: idle_def emit_def processEventQueue_def Let_def take_Cons')

lemma emit_idle:
  assumes "idle es"
  shows "fst (emit n a t es)"
    and "invoked (snd (snd (emit n a t es))) =
           (if admitted n a es then invoked (snd (listenersLoop a 0 (listenersOf es n))) else [])"
    and "listenersOf (fst (snd (emit n a t es))) n =
           (if admitted n a es then fst (listenersLoop a 0 (listenersOf es n))
            else listenersOf es n)"
    and "m \<noteq> n \<Longrightarrow> listenersOf (fst (snd (emit n a t es))) m = listenersOf es m"
    and "idle (fst (snd (emit n a t es)))"
    and "admitted m b (fst (snd (emit n a t es))) = admitted m b es"
proof -
  let ?ev = "\<lparr>name = n, args = a, timestamp = t\<rparr>"
  let ?es = "es\<lparr>metrics := (metrics es)\<lparr>eventsQueued := eventsQueued (metrics es) + 1\<rparr>,
            isProcessing := True, eventQueue := []\<rparr>"
  note e = emit_idle_eq [OF assms, of n a t]
  have l: "listenersOf ?es = listenersOf es"
    by (rule listenersOf_cong) simp
  have ad: "admitted n a ?es = admitted n a es"
    by (rule admitted_cong) simp_all
  show "fst (emit n a t es)" by (simp add: e)
  show "invoked (snd (snd (emit n a t es))) =
           (if admitted n a es then invoked (snd (listenersLoop a 0 (listenersOf es n))) else [])"
    using processEvent_run(2) [of ?ev ?es] by (simp add: e l ad)
  have "listenersOf (fst (snd (emit n a t es))) n = listenersOf (fst (processEvent ?ev ?es)) n"
    by (simp add: e listenersOf_def)
  then show "listenersOf (fst (snd (emit n a t es))) n =
           (if admitted n a es then fst (listenersLoop a 0 (listenersOf es n))
            else listenersOf es n)"
    using processEvent_run(1) [of ?ev ?es] by (simp add: l ad)
  show "idle (fst (snd (emit n a t es)))"
    using assms by (simp add: e idle_def)
  show "admitted m b (fst (snd (emit n a t es))) = admitted m b es"
    by (rule admitted_cong) (simp_all add: e)
  show "listenersOf (fst (snd (emit n a t es))) m = listenersOf es m" if "m \<noteq> n"
    using that by (simp add: e listenersOf_def)
qed

lemma processEvent_failures:
  "failures (snd (processEvent ev es)) =
     (if admitted (name ev) (args ev) es
      then failures (snd (listenersLoop (args ev) 0 (listenersOf es (name ev))))
      else [])"
proof -
  have m: "\<And>n ty a es'. listenersOf (fst (executeMiddleware n ty a es')) = listenersOf es'"
    by (rule listenersOf_cong) simp
  show ?thesis
    by (simp add: processEvent_def Let_def admitted_def m executeEventListeners_run)
qed

lemma emit_idle_failures:
  assumes "idle es"
  shows "failures (snd (snd (emit n a t es))) =
           (if admitted n a es then failures (snd (listenersLoop a 0 (listenersOf es n))) else [])"
proof -
  let ?ev = "\<lparr>name = n, args = a, timestamp = t\<rparr>"
  let ?es = "es\<lparr>metrics := (metrics es)\<lparr>eventsQueued := eventsQueued (metrics es) + 1\<rparr>,
            isProcessing := True, eventQueue := []\<rparr>"
  have l: "listenersOf ?es = listenersOf es"
    by (rule listenersOf_cong) simp
  have ad: "admitted n a ?es = admitted n a es"
    by (rule admitted_cong) simp_all
  show ?thesis
    using processEvent_failures [of ?ev ?es]
    by (simp add: emit_idle_eq [OF assms] l ad)
qed

text \<open>An emit during which no one-shot listener completes.\<close>

lemma emit_no_fire:
  assumes "idle es" and "admitted n a es" and "\<forall>l\<in>set (listenersOf es n). \<not> fires l a"
  shows "invoked (snd (snd (emit n a t es))) = filter (\<lambda>l. accepts l a) (listenersOf es n)"
    and "map fst (failures (snd (snd (emit n a t es)))) = filter (\<lambda>l. fails l a) (listenersOf es n)"
    and "listenersOf (fst (snd (emit n a t es))) = listenersOf es"
proof -
  from assms(3) have "\<forall>l\<in>set (drop 0 (listenersOf es n)). \<not> fires l a" by simp
  from listenersLoop_no_fire [OF this]
  have loop: "listenersLoop a 0 (listenersOf es n)
          = (listenersOf es n, concat (map (\<lambda>l. snd (tryListener l a)) (listenersOf es n)))"
    by simp
  show "invoked (snd (snd (emit n a t es))) = filter (\<lambda>l. accepts l a) (listenersOf es n)"
    using assms(2) by (simp add: emit_idle(2) [OF assms(1)] loop invoked_concat_tryListener)
  show "map fst (failures (snd (snd (emit n a t es)))) = filter (\<lambda>l. fails l a) (listenersOf es n)"
    using assms(2)
    by (simp add: emit_idle_failures [OF assms(1)] loop failures_concat_tryListener)
  show "listenersOf (fst (snd (emit n a t es))) = listenersOf es"
  proof
    fix m
    show "listenersOf (fst (snd (emit n a t es))) m = listenersOf es m"
      using assms(2) emit_idle(3) [OF assms(1), of n a t] emit_idle(4) [OF assms(1), of m n a t]
      by (cases "m = n") (simp_all add: loop)
  qed
qed

lemma emit_idle_reached:
  assumes "idle es"
  shows "invoked (snd (snd (emit n a t es))) =
           (if admitted n a es then filter (\<lambda>l. accepts l a) (reached a (listenersOf es n)) else [])"
    and "map fst (failures (snd (snd (emit n a t es)))) =
           (if admitted n a es then filter (\<lambda>l. fails l a) (reached a (listenersOf es n)) else [])"
  using listenersLoop_invoked [of a 0 "listenersOf es n"]
    listenersLoop_failures [of a 0 "listenersOf es n"]
  by (simp_all add: emit_idle(2) [OF assms] emit_idle_failures [OF assms])

section \<open>Facts about the example systems\<close>

lemma idle_freshSystem: "idle freshSystem"
  by (simp add: idle_def)

lemma sort_key_snoc: "sort_key f (sort_key f xs @ [x]) = sort_key f (xs @ [x])"
proof (rule properties_for_sort_key)
  show "mset (sort_key f (xs @ [x])) = mset (sort_key f xs @ [x])"
    by simp
  show "sorted (map f (sort_key f (xs @ [x])))"
    by simp
  fix k
  have "filter (\<lambda>y. f y = f k) (sort_key f (xs @ [x])) = filter (\<lambda>y. f y = f k) (xs @ [x])"
    by (rule sort_key_stable)
  moreover have "filter (\<lambda>y. f y = f k) (sort_key f xs) = filter (\<lambda>y. f y = f k) xs"
    by (rule sort_key_stable)
  ultimately have "filter (\<lambda>y. f y = f k) (sort_key f (xs @ [x]))
                   = filter (\<lambda>y. f y = f k) (sort_key f xs @ [x])"
    by simp
  then show "filter (\<lambda>y. f k = f y) (sort_key f (xs @ [x]))
             = filter (\<lambda>y. f k = f y) (sort_key f xs @ [x])"
    by (simp add: eq_commute [of "f k"])
qed

lemma sort_key_append: "sort_key f (sort_key f xs @ ys) = sort_key f (xs @ ys)"
proof (induction ys rule: rev_induct)
  case Nil
  then show ?case by (simp add: sort_key_id_if_sorted)
next
  case (snoc y ys)
  have "sort_key f (sort_key f xs @ ys @ [y]) = sort_key f (sort_key f (sort_key f xs @ ys) @ [y])"
    using sort_key_snoc [of f "sort_key f xs @ ys" y] by simp
  also have "\<dots> = sort_key f (sort_key f (xs @ ys) @ [y])"
    by (simp only: snoc.IH)
  also have "\<dots> = sort_key f (xs @ ys @ [y])"
    using sort_key_snoc [of f "xs @ ys" y] by simp
  finally show ?case .
qed

lemma makeListener_cong:
  "config es = config es' \<Longrightarrow> makeListener n h opts t es = makeListener n h opts t es'"
  by (simp add: makeListener_def split: option.splits)

lemma registerAll_fields [simp]:
  "config (registerAll n rs es) = config es"
  "eventQueue (registerAll n rs es) = eventQueue es"
  "isProcessing (registerAll n rs es) = isProcessing es"
  "eventFilters (registerAll n rs es) = eventFilters es"
  "middlewareStack (registerAll n rs es) = middlewareStack es"
  by (induction n rs es rule: registerAll.induct; simp)+

lemma idle_registerAll [simp]: "idle (registerAll n rs es) = idle es"
  by (simp add: idle_def)

lemma registerAll_listeners:
  "sorted (map priority (listenersOf es n)) \<Longrightarrow>
   listenersOf (registerAll n rs es) n
     = sort_key priority (listenersOf es n @ map (\<lambda>(h, opts, t). makeListener n h opts t es) rs)"
proof (induction n rs es rule: registerAll.induct)
  case (1 n es)
  then show ?case by (simp add: sort_key_id_if_sorted)
next
  case (2 n h opts t rs es)
  let ?es1 = "snd (on n h opts t es)"
  have mk: "\<And>h' o' t'. makeListener n h' o' t' ?es1 = makeListener n h' o' t' es"
    by (rule makeListener_cong) simp
  have "sorted (map priority (listenersOf ?es1 n))" by simp
  from "2.IH" [OF this]
  have "listenersOf (registerAll n rs ?es1) n
          = sort_key priority
              (sort_key priority (listenersOf es n @ [makeListener n h opts t es])
               @ map (\<lambda>(h, opts, t). makeListener n h opts t es) rs)"
    by (simp add: mk)
  then show ?case
    by (simp add: sort_key_append)
qed

lemma listenersOf_fresh_msg [simp]: "listenersOf freshSystem ''msg'' = []"
  by (simp add: listenersOf_def)

lemma admitted_fresh [simp]: "admitted n a freshSystem"
  by (simp add: admitted_def applyEventFilters_def)

lemma registered_setup:
  "idle (registerAll n rs freshSystem)" "admitted m a (registerAll n rs freshSystem)"
proof -
  show "idle (registerAll n rs freshSystem)"
    using idle_freshSystem by simp
  have "admitted m a (registerAll n rs freshSystem) = admitted m a freshSystem"
    by (rule admitted_cong) simp_all
  then show "admitted m a (registerAll n rs freshSystem)" by simp
qed

lemma fourListeners_msg:
  "listenersOf fourListeners ''msg'' =
     [\<lparr>handler = throwing, priority = 1, type_l = ''custom'', id_l = ''A'', once = False,
       filter_l = None, timeout = Some 30000\<rparr>,
      \<lparr>handler = returning, priority = 1, type_l = ''custom'', id_l = ''D'', once = False,
       filter_l = None, timeout = Some 30000\<rparr>,
      \<lparr>handler = returning, priority = 5, type_l = ''custom'', id_l = ''B'', once = False,
       filter_l = None, timeout = Some 30000\<rparr>,
      \<lparr>handler = returning, priority = 5, type_l = ''custom'', id_l = ''C'', once = False,
       filter_l = None, timeout = Some 30000\<rparr>]"
  by (simp add: fourListeners_def fourRegistrations_def withPriority_def noOptions_def
        makeListener_def)

lemma fourListeners_setup [simp]:
  "idle fourListeners" "admitted n a fourListeners"
  using idle_freshSystem admitted_fresh [of n a]
  by (simp_all add: fourListeners_def admitted_cong [of "registerAll ''msg'' fourRegistrations freshSystem" freshSystem])

lemma fourListeners_emit:
  "map id_l (invoked (snd (snd (emit ''msg'' [] 1005 fourListeners)))) = [''A'', ''D'', ''B'', ''C'']"
proof -
  have "\<forall>l\<in>set (drop 0 (listenersOf fourListeners ''msg'')). \<not> fires l []"
    by (simp add: fourListeners_msg fires_def)
  from listenersLoop_no_fire [OF this]
  have "invoked (snd (listenersLoop [] 0 (listenersOf fourListeners ''msg'')))
          = filter (\<lambda>l. accepts l []) (listenersOf fourListeners ''msg'')"
    by (simp add: invoked_concat_tryListener)
  then show ?thesis
    by (simp add: emit_idle(2) fourListeners_msg accepts_def)
qed

lemma skipAfterOnce_msg:
  "listenersOf skipAfterOnce ''msg'' =
     [\<lparr>handler = throwing, priority = 1, type_l = ''custom'', id_l = ''T'', once = False,
       filter_l = None, timeout = Some 30000\<rparr>,
      \<lparr>handler = returning, priority = 2, type_l = ''custom'', id_l = ''A'', once = True,
       filter_l = None, timeout = Some 30000\<rparr>,
      \<lparr>handler = returning, priority = 3, type_l = ''custom'', id_l = ''B'', once = False,
       filter_l = None, timeout = Some 30000\<rparr>]"
  by (simp add: skipAfterOnce_def withPriority_def noOptions_def makeListener_def)

lemma rejectedByFilter_msg:
  "listenersOf rejectedByFilter ''msg'' =
     [\<lparr>handler = throwing, priority = 1, type_l = ''custom'', id_l = ''T'', once = False,
       filter_l = None, timeout = Some 30000\<rparr>,
      \<lparr>handler = returning, priority = 2, type_l = ''custom'', id_l = ''F'', once = False,
       filter_l = Some rejecting, timeout = Some 30000\<rparr>]"
  by (simp add: rejectedByFilter_def withPriority_def noOptions_def makeListener_def)

lemma twoNames_listeners:
  "listenersOf twoNames ''msg'' = listenersOf fourListeners ''msg''"
  "listenersOf twoNames ''log'' =
     [\<lparr>handler = returning, priority = 5, type_l = ''custom'', id_l = ''L'', once = False,
       filter_l = None, timeout = Some 30000\<rparr>]"
proof -
  have "eventListeners fourListeners ''log'' = None"
    by (simp add: fourListeners_def fourRegistrations_def freshSystem_other builtInEvents_def)
  then have e: "listenersOf fourListeners ''log'' = []"
    by (simp add: listenersOf_def)
  have c: "config fourListeners = config freshSystem"
    by (simp add: fourListeners_def)
  show "listenersOf twoNames ''msg'' = listenersOf fourListeners ''msg''"
    by (simp add: twoNames_def)
  show "listenersOf twoNames ''log'' =
     [\<lparr>handler = returning, priority = 5, type_l = ''custom'', id_l = ''L'', once = False,
       filter_l = None, timeout = Some 30000\<rparr>]"
    by (simp add: twoNames_def e c makeListener_def withPriority_def noOptions_def)
qed

lemma twoNames_setup:
  "idle twoNames" "admitted n a twoNames"
proof -
  show "idle twoNames"
    using fourListeners_setup(1) by (simp add: twoNames_def idle_def)
  have "admitted n a twoNames = admitted n a fourListeners"
    by (rule admitted_cong) (simp_all add: twoNames_def)
  then show "admitted n a twoNames" by simp
qed


lemma onceThrows_facts:
  "idle onceThrows" "admitted m a onceThrows"
  "listenersOf onceThrows ''msg'' = [listenerOnceThrows]"
proof -
  show "idle onceThrows"
    using idle_freshSystem by (simp add: onceThrows_def idle_def)
  show "admitted m a onceThrows"
    by (simp add: onceThrows_def admitted_def applyEventFilters_def)
  show "listenersOf onceThrows ''msg'' = [listenerOnceThrows]"
    by (simp add: onceThrows_def listenerOnceThrows_def makeListener_def noOptions_def)
qed

lemma listenerOnceThrows_facts:
  "\<not> completes listenerOnceThrows a" "\<not> fires listenerOnceThrows a"
  "accepts listenerOnceThrows a" "once listenerOnceThrows"
  "id_l listenerOnceThrows = ''custom_msg_1001''"
  by (simp_all add: listenerOnceThrows_def completes_def fires_iff accepts_def throwing_def)


lemma oneListener_msg:
  "listenersOf oneListener ''msg'' =
     [\<lparr>handler = returning, priority = 5, type_l = ''custom'', id_l = ''custom_msg_1001'',
       once = False, filter_l = None, timeout = Some 30000\<rparr>]"
  by (simp add: oneListener_def makeListener_def noOptions_def listenersOf_def)

lemma twoSameMs_msg:
  "listenersOf twoSameMs ''msg'' =
     [\<lparr>handler = returning, priority = 5, type_l = ''custom'', id_l = ''custom_msg_1001'',
       once = False, filter_l = None, timeout = Some 30000\<rparr>,
      \<lparr>handler = returning, priority = 5, type_l = ''custom'', id_l = ''custom_msg_1001'',
       once = False, filter_l = None, timeout = Some 30000\<rparr>]"
  by (simp add: twoSameMs_def makeListener_def noOptions_def oneListener_msg)
     (simp add: oneListener_def)

lemma withErrorMiddleware_facts:
  "idle withErrorMiddleware"
  "admitted ''test'' [] withErrorMiddleware"
  "middlewareStack withErrorMiddleware ''test''
     = Some [\<lparr>middleware = noting, priority_m = 5, id_m = ''E'', type_m = ''error''\<rparr>]"
  "listenersOf withErrorMiddleware ''test''
     = [\<lparr>handler = throwing, priority = 5, type_l = ''custom'', id_l = ''X'', once = False,
         filter_l = None, timeout = Some 30000\<rparr>]"
proof -
  have t: "eventListeners freshSystem ''test'' = None"
    by (simp add: freshSystem_other builtInEvents_def)
  show "idle withErrorMiddleware"
    using idle_freshSystem by (simp add: withErrorMiddleware_def idle_def)
  show "admitted ''test'' [] withErrorMiddleware"
    by (simp add: withErrorMiddleware_def admitted_def applyEventFilters_def)
  show "middlewareStack withErrorMiddleware ''test''
     = Some [\<lparr>middleware = noting, priority_m = 5, id_m = ''E'', type_m = ''error''\<rparr>]"
    by (simp add: withErrorMiddleware_def use_def errorPhase_def)
  show "listenersOf withErrorMiddleware ''test''
     = [\<lparr>handler = throwing, priority = 5, type_l = ''custom'', id_l = ''X'', once = False,
         filter_l = None, timeout = Some 30000\<rparr>]"
    by (simp add: withErrorMiddleware_def t listenersOf_def [of freshSystem] makeListener_def
          withPriority_def noOptions_def)
qed

lemma listenersOf_after_emit_onceThrows:
  "listenersOf (fst (snd (emit ''msg'' [] 1002 onceThrows))) = listenersOf onceThrows"
  by (rule emit_no_fire(3) [OF onceThrows_facts(1) onceThrows_facts(2)])
     (simp add: onceThrows_facts listenerOnceThrows_facts)


lemma admitted_registerAll [simp]: "admitted m a (registerAll n rs es) = admitted m a es"
  by (rule admitted_cong) simp_all

section \<open>Removing twice\<close>

text \<open>
  Claim C9, as amended. \<open>off\<close> removes the first listener of the name that carries the id:
  if that listener stands at position \<open>k\<close> of the array, \<open>off\<close> returns true and leaves the
  array without its element \<open>k\<close>, and nothing else in the system changes. When exactly one
  listener of the name carries the id, the first call returns true, the second returns
  false, and the second call leaves the system as the first left it. When no listener of
  the name carries the id, \<open>off\<close> returns false and changes nothing.
\<close>

theorem off_twice:
  "(k < length (listenersOf es n) \<and> id_l (listenersOf es n ! k) = i
      \<and> (\<forall>j<k. id_l (listenersOf es n ! j) \<noteq> i) \<longrightarrow>
      off n i es =
        (True, es\<lparr>eventListeners := (eventListeners es)(n \<mapsto>
                     take k (listenersOf es n) @ drop (Suc k) (listenersOf es n))\<rparr>))
   \<and> (count_list (map id_l (listenersOf es n)) i = 1 \<longrightarrow>
      fst (off n i es) \<and> \<not> fst (off n i (snd (off n i es)))
      \<and> snd (off n i (snd (off n i es))) = snd (off n i es))
   \<and> (i \<notin> set (map id_l (listenersOf es n)) \<longrightarrow> off n i es = (False, es))"
proof (intro conjI impI)
  assume a: "k < length (listenersOf es n) \<and> id_l (listenersOf es n ! k) = i
      \<and> (\<forall>j<k. id_l (listenersOf es n ! j) \<noteq> i)"
  then obtain ls where ls: "eventListeners es n = Some ls"
    by (cases "eventListeners es n") (auto simp: listenersOf_def)
  then have l: "listenersOf es n = ls"
    by (simp add: listenersOf_def)
  from a have "findIndex (\<lambda>l. id_l l = i) ls = Some k"
    unfolding l by (intro findIndex_first) auto
  then show "off n i es =
        (True, es\<lparr>eventListeners := (eventListeners es)(n \<mapsto>
                     take k (listenersOf es n) @ drop (Suc k) (listenersOf es n))\<rparr>)"
    using ls by (simp add: off_def spliceById_def splice1_def l)
next
  assume "count_list (map id_l (listenersOf es n)) i = 1"
  then have one: "length (filter (\<lambda>l. id_l l = i) (listenersOf es n)) = 1"
    by (simp only: count_ids)
  obtain ls where ls: "eventListeners es n = Some ls"
    using one by (cases "eventListeners es n") (auto simp: listenersOf_def)
  then have one': "length (filter (\<lambda>l. id_l l = i) ls) = 1"
    using one by (simp add: listenersOf_def)
  have "findIndex (\<lambda>l. id_l l = i) ls \<noteq> None"
  proof
    assume "findIndex (\<lambda>l. id_l l = i) ls = None"
    then have "filter (\<lambda>l. id_l l = i) ls = []"
      by (simp add: findIndex_None filter_empty_conv)
    with one' show False by simp
  qed
  then obtain k where k: "findIndex (\<lambda>l. id_l l = i) ls = Some k"
    by auto
  have first: "off n i es = (True, es\<lparr>eventListeners := (eventListeners es)(n \<mapsto> splice1 k ls)\<rparr>)"
    using ls k by (simp add: off_def spliceById_def)
  have "\<forall>l\<in>set (splice1 k ls). id_l l \<noteq> i"
    using no_match_after_splice [OF k one'] .
  then have gone: "i \<notin> set (map id_l (listenersOf (snd (off n i es)) n))"
    unfolding first snd_conv listenersOf_upd by auto
  have second: "off n i (snd (off n i es)) = (False, snd (off n i es))"
    using gone by (rule off_absent)
  show "fst (off n i es)" by (simp only: first fst_conv)
  show "\<not> fst (off n i (snd (off n i es)))"
    by (simp only: second fst_conv not_False_eq_True)
  show "snd (off n i (snd (off n i es))) = snd (off n i es)"
    by (simp only: second snd_conv)
next
  assume "i \<notin> set (map id_l (listenersOf es n))"
  then show "off n i es = (False, es)" by (rule off_absent)
qed

text \<open>
  With A, D, B, C registered on \<open>msg\<close>, removing B leaves A, D, C; removing B again returns
  false and changes nothing.
\<close>

theorem off_twice_witness:
  "map id_l (listenersOf fourListeners ''msg'') = [''A'', ''D'', ''B'', ''C'']
   \<and> count_list (map id_l (listenersOf fourListeners ''msg'')) ''B'' = 1
   \<and> fst (off ''msg'' ''B'' fourListeners)
   \<and> map id_l (listenersOf (snd (off ''msg'' ''B'' fourListeners)) ''msg'') = [''A'', ''D'', ''C'']
   \<and> \<not> fst (off ''msg'' ''B'' (snd (off ''msg'' ''B'' fourListeners)))
   \<and> snd (off ''msg'' ''B'' (snd (off ''msg'' ''B'' fourListeners)))
       = snd (off ''msg'' ''B'' fourListeners)
   \<and> ''Z'' \<notin> set (map id_l (listenersOf fourListeners ''msg''))
   \<and> off ''msg'' ''Z'' fourListeners = (False, fourListeners)"
proof -
  have a: "2 < length (listenersOf fourListeners ''msg'')
           \<and> id_l (listenersOf fourListeners ''msg'' ! 2) = ''B''
           \<and> (\<forall>j<2. id_l (listenersOf fourListeners ''msg'' ! j) \<noteq> ''B'')"
    by (simp add: fourListeners_msg less_Suc_eq numeral_2_eq_2)
  have b: "count_list (map id_l (listenersOf fourListeners ''msg'')) ''B'' = 1"
    "''Z'' \<notin> set (map id_l (listenersOf fourListeners ''msg''))"
    by (simp_all add: fourListeners_msg)
  from off_twice [of 2 fourListeners "''msg''" "''B''"] a b
  have "off ''msg'' ''B'' fourListeners =
        (True, fourListeners\<lparr>eventListeners := (eventListeners fourListeners)(''msg'' \<mapsto>
                     take 2 (listenersOf fourListeners ''msg'')
                     @ drop (Suc 2) (listenersOf fourListeners ''msg''))\<rparr>)"
    and "\<not> fst (off ''msg'' ''B'' (snd (off ''msg'' ''B'' fourListeners)))"
    and "snd (off ''msg'' ''B'' (snd (off ''msg'' ''B'' fourListeners)))
       = snd (off ''msg'' ''B'' fourListeners)"
    by blast+
  moreover from off_twice [of 0 fourListeners "''msg''" "''Z''"] b
  have "off ''msg'' ''Z'' fourListeners = (False, fourListeners)"
    by blast
  ultimately show ?thesis
    using b by (simp add: fourListeners_msg)
qed

text \<open>
  The claim as stated fails when two listeners of the name carry the id: each call of
  \<open>off\<close> removes one of them, so the second call returns true as well. \<open>on\<close> takes any id
  the caller gives, and builds its default id from the clock, so that two registrations
  without an id in the same millisecond share it too.
\<close>

lemma twoSameId_msg:
  "map id_l (listenersOf twoSameId ''msg'') = [''X'', ''X'']"
  "eventListeners twoSameId ''msg'' = Some (listenersOf twoSameId ''msg'')"
  by (simp_all add: twoSameId_def withPriority_def noOptions_def makeListener_def)

theorem off_twice_counterexample:
  "map id_l (listenersOf twoSameId ''msg'') = [''X'', ''X'']
   \<and> fst (off ''msg'' ''X'' twoSameId)
   \<and> fst (off ''msg'' ''X'' (snd (off ''msg'' ''X'' twoSameId)))
   \<and> fst (on ''msg'' returning noOptions 1001 freshSystem) = ''custom_msg_1001''
   \<and> fst (on ''msg'' returning noOptions 1001 oneListener) = ''custom_msg_1001''
   \<and> fst (off ''msg'' ''custom_msg_1001'' twoSameMs)
   \<and> fst (off ''msg'' ''custom_msg_1001'' (snd (off ''msg'' ''custom_msg_1001'' twoSameMs)))"
proof -
  have e: "eventListeners twoSameMs ''msg'' = Some (listenersOf twoSameMs ''msg'')"
    by (simp add: twoSameMs_def)
  have x: "listenersOf twoSameId ''msg'' =
     [\<lparr>handler = returning, priority = 5, type_l = ''custom'', id_l = ''X'', once = False,
       filter_l = None, timeout = Some 30000\<rparr>,
      \<lparr>handler = throwing, priority = 5, type_l = ''custom'', id_l = ''X'', once = False,
       filter_l = None, timeout = Some 30000\<rparr>]"
    by (simp add: twoSameId_def withPriority_def noOptions_def makeListener_def)
  show ?thesis
    by (simp add: makeListener_def noOptions_def off_def e twoSameMs_msg twoSameId_msg(2) x
          spliceById_def splice1_def)
qed

section \<open>Backpressure\<close>

lemma processEventQueue_eventsQueued [simp]:
  "eventsQueued (metrics (fst (processEventQueue es))) = eventsQueued (metrics es)"
  by (simp add: processEventQueue_def Let_def)



section \<open>Invocation order\<close>

text \<open>
  Claim C6, as amended. Start from a dispatcher at rest whose array for the name is sorted
  (any array that \<open>on\<close> has touched is, and so are the constructor's: they hold at most one
  listener). After any further registrations the array for the name is the listeners in
  registration order, stably sorted by the priority \<open>on\<close> stored: ascending in priority,
  and within one priority in the order of registration. The stored priority is the one
  given, or 5 when none is given (a given 0 is stored as 5 as well). An emit of an admitted
  event calls, in the order of that array, the handlers of the listeners that have their
  turn and whose own filter accepts the arguments; every listener of the array has its turn
  unless it stands right behind a one-shot listener that completes. So the handlers are
  called in ascending priority, ties in registration order.
\<close>

theorem listeners_run_in_priority_order:
  assumes "idle es" and "sorted (map priority (listenersOf es n))"
  shows "listenersOf (registerAll n rs es) n
           = sort_key priority
               (listenersOf es n @ map (\<lambda>(h, opts, t). makeListener n h opts t es) rs)
         \<and> (\<forall>(h, opts, t)\<in>set rs.
               priority (makeListener n h opts t es)
                 = (case priority_o opts of None \<Rightarrow> 5 | Some p \<Rightarrow> if p = 0 then 5 else p))
         \<and> sorted (map priority (listenersOf (registerAll n rs es) n))
         \<and> filter (\<lambda>l. priority l = p) (listenersOf (registerAll n rs es) n)
             = filter (\<lambda>l. priority l = p)
                 (listenersOf es n @ map (\<lambda>(h, opts, t). makeListener n h opts t es) rs)
         \<and> invoked (snd (snd (emit n a t (registerAll n rs es))))
             = (if admitted n a es
                then filter (\<lambda>l. accepts l a) (reached a (listenersOf (registerAll n rs es) n))
                else [])
         \<and> subseq (reached a (listenersOf (registerAll n rs es) n))
                  (listenersOf (registerAll n rs es) n)
         \<and> (\<forall>j<length (listenersOf (registerAll n rs es) n).
               j = 0 \<or> \<not> fires (listenersOf (registerAll n rs es) n ! (j - 1)) a \<longrightarrow>
               listenersOf (registerAll n rs es) n ! j
                 \<in> set (reached a (listenersOf (registerAll n rs es) n)))
         \<and> sorted (map priority (invoked (snd (snd (emit n a t (registerAll n rs es))))))"
proof -
  let ?R = "listenersOf (registerAll n rs es) n"
  let ?regs = "listenersOf es n @ map (\<lambda>(h, opts, t). makeListener n h opts t es) rs"
  let ?inv = "invoked (snd (snd (emit n a t (registerAll n rs es))))"
  have R: "?R = sort_key priority ?regs"
    using assms(2) by (rule registerAll_listeners)
  have pr: "\<forall>(h, opts, t)\<in>set rs.
               priority (makeListener n h opts t es)
                 = (case priority_o opts of None \<Rightarrow> 5 | Some p \<Rightarrow> if p = 0 then 5 else p)"
    by (simp add: makeListener_def split_beta)
  have s: "sorted (map priority ?R)"
    by (simp add: R)
  have st: "filter (\<lambda>l. priority l = p) ?R = filter (\<lambda>l. priority l = p) ?regs"
    unfolding R by (rule sort_key_stable)
  have "idle (registerAll n rs es)"
    using assms(1) by simp
  from emit_idle_reached(1) [OF this, of n a t]
  have inv: "?inv = (if admitted n a es then filter (\<lambda>l. accepts l a) (reached a ?R) else [])"
    by simp
  have sub: "subseq (reached a ?R) ?R"
    by (rule subseq_reached)
  have turn: "\<forall>j<length ?R. j = 0 \<or> \<not> fires (?R ! (j - 1)) a \<longrightarrow> ?R ! j \<in> set (reached a ?R)"
    by (simp add: reached_nth)
  have "subseq (filter (\<lambda>l. accepts l a) (reached a ?R)) (reached a ?R)"
    by simp
  with sub have "subseq (filter (\<lambda>l. accepts l a) (reached a ?R)) ?R"
    by (rule subseq_order.trans [rotated])
  then have "subseq ?inv ?R"
    by (simp add: inv)
  from this s have "sorted (map priority ?inv)"
    by (rule subseq_sorted_map)
  with R pr s st inv sub turn show ?thesis
    by (intro conjI)
qed

lemma mixed_msg:
  "listenersOf (registerAll ''msg'' mixedRegistrations freshSystem) ''msg'' =
     [\<lparr>handler = returning, priority = 1, type_l = ''custom'', id_l = ''A'', once = True,
       filter_l = None, timeout = Some 30000\<rparr>,
      \<lparr>handler = throwing, priority = 1, type_l = ''custom'', id_l = ''D'', once = False,
       filter_l = None, timeout = Some 30000\<rparr>,
      \<lparr>handler = returning, priority = 5, type_l = ''custom'', id_l = ''B'', once = False,
       filter_l = None, timeout = Some 30000\<rparr>,
      \<lparr>handler = returning, priority = 5, type_l = ''custom'', id_l = ''C'', once = False,
       filter_l = None, timeout = Some 30000\<rparr>,
      \<lparr>handler = returning, priority = 5, type_l = ''custom'', id_l = ''E'', once = False,
       filter_l = None, timeout = Some 30000\<rparr>]"
  by (simp add: mixedRegistrations_def withPriority_def noOptions_def makeListener_def)

text \<open>
  B (5), A (1), C (5), D (1) are called in the order A, D, B, C. With A one-shot and E
  registered without a priority, the array is A, D, B, C, E; A completes, D has no turn,
  and the handlers called are A, B, C, E.
\<close>

theorem listeners_run_in_priority_order_witness:
  "idle freshSystem
   \<and> sorted (map priority (listenersOf freshSystem ''msg''))
   \<and> map id_l (listenersOf (registerAll ''msg'' fourRegistrations freshSystem) ''msg'')
       = [''A'', ''D'', ''B'', ''C'']
   \<and> map id_l (invoked (snd (snd (emit ''msg'' [] 1005
         (registerAll ''msg'' fourRegistrations freshSystem)))))
       = [''A'', ''D'', ''B'', ''C'']
   \<and> map id_l (listenersOf (registerAll ''msg'' mixedRegistrations freshSystem) ''msg'')
       = [''A'', ''D'', ''B'', ''C'', ''E'']
   \<and> map priority (listenersOf (registerAll ''msg'' mixedRegistrations freshSystem) ''msg'')
       = [1, 1, 5, 5, 5]
   \<and> map id_l (invoked (snd (snd (emit ''msg'' [] 1006
         (registerAll ''msg'' mixedRegistrations freshSystem)))))
       = [''A'', ''B'', ''C'', ''E'']
   \<and> sorted (map priority (invoked (snd (snd (emit ''msg'' [] 1006
         (registerAll ''msg'' mixedRegistrations freshSystem))))))"
proof -
  have s: "sorted (map priority (listenersOf freshSystem ''msg''))"
    by simp
  from listeners_run_in_priority_order
         [OF idle_freshSystem s, where rs = fourRegistrations and a = "[]" and t = 1005]
  have "invoked (snd (snd (emit ''msg'' [] 1005
                (registerAll ''msg'' fourRegistrations freshSystem))))
              = (if admitted ''msg'' [] freshSystem
                 then filter (\<lambda>l. accepts l [])
                        (reached [] (listenersOf (registerAll ''msg'' fourRegistrations freshSystem) ''msg''))
                 else [])"
    by blast
  then have four: "invoked (snd (snd (emit ''msg'' [] 1005
                (registerAll ''msg'' fourRegistrations freshSystem))))
              = filter (\<lambda>l. accepts l [])
                  (reached [] (listenersOf (registerAll ''msg'' fourRegistrations freshSystem) ''msg''))"
    by simp
  from listeners_run_in_priority_order
         [OF idle_freshSystem s, where rs = mixedRegistrations and a = "[]" and t = 1006]
  have "invoked (snd (snd (emit ''msg'' [] 1006
                (registerAll ''msg'' mixedRegistrations freshSystem))))
              = (if admitted ''msg'' [] freshSystem
                 then filter (\<lambda>l. accepts l [])
                        (reached [] (listenersOf (registerAll ''msg'' mixedRegistrations freshSystem) ''msg''))
                 else [])"
    and srt: "sorted (map priority (invoked (snd (snd (emit ''msg'' [] 1006
                (registerAll ''msg'' mixedRegistrations freshSystem))))))"
    by blast+
  then have mixed: "invoked (snd (snd (emit ''msg'' [] 1006
                (registerAll ''msg'' mixedRegistrations freshSystem))))
              = filter (\<lambda>l. accepts l [])
                  (reached [] (listenersOf (registerAll ''msg'' mixedRegistrations freshSystem) ''msg''))"
    by simp
  have f: "listenersOf (registerAll ''msg'' fourRegistrations freshSystem) ''msg''
             = listenersOf fourListeners ''msg''"
    by (simp add: fourListeners_def)
  show ?thesis
    using idle_freshSystem s srt
    by (simp add: four mixed f fourListeners_msg mixed_msg fires_def accepts_def
          tryListener_def returning_def throwing_def)
qed

lemma counter_msg:
  "listenersOf filteredFirst ''msg'' =
     [\<lparr>handler = returning, priority = 1, type_l = ''custom'', id_l = ''A'', once = False,
       filter_l = Some rejecting, timeout = Some 30000\<rparr>,
      \<lparr>handler = returning, priority = 5, type_l = ''custom'', id_l = ''B'', once = False,
       filter_l = None, timeout = Some 30000\<rparr>]"
  "listenersOf zeroPriority ''msg'' =
     [\<lparr>handler = returning, priority = 3, type_l = ''custom'', id_l = ''B'', once = False,
       filter_l = None, timeout = Some 30000\<rparr>,
      \<lparr>handler = returning, priority = 5, type_l = ''custom'', id_l = ''A'', once = False,
       filter_l = None, timeout = Some 30000\<rparr>]"
  "listenersOf onceFirst ''msg'' =
     [\<lparr>handler = returning, priority = 1, type_l = ''custom'', id_l = ''A'', once = True,
       filter_l = None, timeout = Some 30000\<rparr>,
      \<lparr>handler = returning, priority = 5, type_l = ''custom'', id_l = ''B'', once = False,
       filter_l = None, timeout = Some 30000\<rparr>]"
  by (simp_all add: filteredFirst_def zeroPriority_def onceFirst_def withPriority_def
        noOptions_def makeListener_def)

text \<open>
  The claim as stated fails in three ways. A listener whose own filter rejects the event is
  not called, so with such an A (priority 1) before B (priority 5) only B is called. A
  priority of 0 is stored as 5, so A registered with priority 0 is called after B registered
  with priority 3. And when A (priority 1) is a one-shot listener that completes, B
  (priority 5), which stands right behind it, is not called in that emit.
\<close>

theorem listeners_run_in_priority_order_counterexample:
  "map id_l (listenersOf filteredFirst ''msg'') = [''A'', ''B'']
   \<and> map id_l (invoked (snd (snd (emit ''msg'' [] 1003 filteredFirst)))) = [''B'']
   \<and> priority_o (withPriority ''A'' 0) = Some 0 \<and> priority_o (withPriority ''B'' 3) = Some 3
   \<and> map id_l (invoked (snd (snd (emit ''msg'' [] 1003 zeroPriority)))) = [''B'', ''A'']
   \<and> map id_l (listenersOf onceFirst ''msg'') = [''A'', ''B'']
   \<and> map id_l (invoked (snd (snd (emit ''msg'' [] 1003 onceFirst)))) = [''A'']"
proof -
  have i: "idle filteredFirst" "idle zeroPriority" "idle onceFirst"
    unfolding filteredFirst_def zeroPriority_def onceFirst_def by (rule registered_setup)+
  have a: "admitted ''msg'' [] filteredFirst" "admitted ''msg'' [] zeroPriority"
    "admitted ''msg'' [] onceFirst"
    unfolding filteredFirst_def zeroPriority_def onceFirst_def by (rule registered_setup)+
  show ?thesis
    by (simp add: emit_idle_reached(1) i a counter_msg fires_def accepts_def tryListener_def
          returning_def rejecting_def withPriority_def noOptions_def)
qed

section \<open>A failing listener does not stop the others\<close>

text \<open>
  Claim C2, as amended. Take an emit, at rest, of an event that its event filters admit.
  Whichever listeners throw or overrun, every listener of the name has its turn, in the
  order of the array, unless it stands right behind a one-shot listener that completes; the
  handler of each listener that has its turn and whose own filter accepts the arguments is
  called, and each failure is logged. With distinct ids, every listener that did not
  complete as a one-shot listener, a failing one included, is still registered afterwards;
  the arrays of the other names are untouched. A following emit of any name, made at rest
  again, is processed in the same way, on the arrays as the first emit left them.
\<close>

theorem listener_failure_isolated:
  assumes "idle es" and "admitted n a es"
    and "idle (fst (snd (emit n a t es)))" and "admitted m b (fst (snd (emit n a t es)))"
  shows "fst (emit n a t es)
     \<and> invoked (snd (snd (emit n a t es)))
         = filter (\<lambda>l. accepts l a) (reached a (listenersOf es n))
     \<and> map fst (failures (snd (snd (emit n a t es))))
         = filter (\<lambda>l. fails l a) (reached a (listenersOf es n))
     \<and> subseq (reached a (listenersOf es n)) (listenersOf es n)
     \<and> (\<forall>j<length (listenersOf es n).
           j = 0 \<or> \<not> fires (listenersOf es n ! (j - 1)) a \<longrightarrow>
           listenersOf es n ! j \<in> set (reached a (listenersOf es n))
           \<and> (accepts (listenersOf es n ! j) a \<longrightarrow>
                listenersOf es n ! j \<in> set (invoked (snd (snd (emit n a t es))))))
     \<and> (distinct (map id_l (listenersOf es n)) \<longrightarrow>
          (\<forall>l\<in>set (listenersOf es n). \<not> fires l a \<longrightarrow>
             l \<in> set (listenersOf (fst (snd (emit n a t es))) n)))
     \<and> (m \<noteq> n \<longrightarrow> listenersOf (fst (snd (emit n a t es))) m = listenersOf es m)
     \<and> fst (emit m b t' (fst (snd (emit n a t es))))
     \<and> invoked (snd (snd (emit m b t' (fst (snd (emit n a t es))))))
         = filter (\<lambda>l. accepts l b) (reached b (listenersOf (fst (snd (emit n a t es))) m))"
proof -
  let ?es1 = "fst (snd (emit n a t es))"
  let ?ls = "listenersOf es n"
  have inv: "invoked (snd (snd (emit n a t es))) = filter (\<lambda>l. accepts l a) (reached a ?ls)"
    and fl: "map fst (failures (snd (snd (emit n a t es)))) = filter (\<lambda>l. fails l a) (reached a ?ls)"
    using assms(2) by (simp_all add: emit_idle_reached [OF assms(1)])
  have turn: "?ls ! j \<in> set (reached a ?ls)
           \<and> (accepts (?ls ! j) a \<longrightarrow> ?ls ! j \<in> set (invoked (snd (snd (emit n a t es)))))"
    if "j < length ?ls" and "j = 0 \<or> \<not> fires (?ls ! (j - 1)) a" for j
    using reached_nth [OF that] by (simp add: inv)
  have stay: "l \<in> set (listenersOf ?es1 n)"
    if d: "distinct (map id_l ?ls)" and l: "l \<in> set ?ls" and nf: "\<not> fires l a" for l
  proof (rule ccontr)
    assume "l \<notin> set (listenersOf ?es1 n)"
    then have "l \<notin> set (fst (listenersLoop a 0 ?ls))"
      using assms(2) by (simp add: emit_idle(3) [OF assms(1)])
    from removed_only_if_fired [OF d l this] nf show False by simp
  qed
  have other: "listenersOf ?es1 m = listenersOf es m" if "m \<noteq> n"
    using that by (rule emit_idle(4) [OF assms(1)])
  have second: "invoked (snd (snd (emit m b t' ?es1)))
                  = filter (\<lambda>l. accepts l b) (reached b (listenersOf ?es1 m))"
    using assms(4) by (simp add: emit_idle_reached(1) [OF assms(3)])
  from inv fl turn stay other second emit_idle(1) [OF assms(1)] emit_idle(1) [OF assms(3)]
    subseq_reached [of a ?ls]
  show ?thesis by blast
qed
lemma sixListeners_facts:
  "idle sixListeners" "admitted m a sixListeners"
  "listenersOf sixListeners ''msg'' =
     [\<lparr>handler = throwing, priority = 1, type_l = ''custom'', id_l = ''T'', once = False,
       filter_l = None, timeout = Some 30000\<rparr>,
      \<lparr>handler = returning, priority = 2, type_l = ''custom'', id_l = ''A'', once = True,
       filter_l = None, timeout = Some 30000\<rparr>,
      \<lparr>handler = returning, priority = 3, type_l = ''custom'', id_l = ''B'', once = False,
       filter_l = None, timeout = Some 30000\<rparr>,
      \<lparr>handler = returning, priority = 4, type_l = ''custom'', id_l = ''C'', once = False,
       filter_l = None, timeout = Some 30000\<rparr>,
      \<lparr>handler = returning, priority = 5, type_l = ''custom'', id_l = ''D'', once = False,
       filter_l = None, timeout = Some 30000\<rparr>]"
  "listenersOf sixListeners ''log'' =
     [\<lparr>handler = returning, priority = 5, type_l = ''custom'', id_l = ''L'', once = False,
       filter_l = None, timeout = Some 30000\<rparr>]"
proof -
  let ?rs = "[(throwing, withPriority ''T'' 1, 1001),
           (returning, (withPriority ''A'' 2)\<lparr>once_o := True\<rparr>, 1002),
           (returning, withPriority ''B'' 3, 1003),
           (returning, withPriority ''C'' 4, 1004),
           (returning, withPriority ''D'' 5, 1005)]"
  let ?es = "registerAll ''msg'' ?rs freshSystem"
  have i: "idle ?es" by (rule registered_setup)
  then show "idle sixListeners"
    by (simp add: sixListeners_def idle_def)
  have "admitted m a sixListeners = admitted m a freshSystem"
    by (rule admitted_cong) (simp_all add: sixListeners_def)
  then show "admitted m a sixListeners" by simp
  show "listenersOf sixListeners ''msg'' =
     [\<lparr>handler = throwing, priority = 1, type_l = ''custom'', id_l = ''T'', once = False,
       filter_l = None, timeout = Some 30000\<rparr>,
      \<lparr>handler = returning, priority = 2, type_l = ''custom'', id_l = ''A'', once = True,
       filter_l = None, timeout = Some 30000\<rparr>,
      \<lparr>handler = returning, priority = 3, type_l = ''custom'', id_l = ''B'', once = False,
       filter_l = None, timeout = Some 30000\<rparr>,
      \<lparr>handler = returning, priority = 4, type_l = ''custom'', id_l = ''C'', once = False,
       filter_l = None, timeout = Some 30000\<rparr>,
      \<lparr>handler = returning, priority = 5, type_l = ''custom'', id_l = ''D'', once = False,
       filter_l = None, timeout = Some 30000\<rparr>]"
    by (simp add: sixListeners_def withPriority_def noOptions_def makeListener_def)
  have "eventListeners ?es ''log'' = None"
    by (simp add: freshSystem_other builtInEvents_def)
  then have e: "listenersOf ?es ''log'' = []"
    by (simp add: listenersOf_def)
  have c: "config ?es = config freshSystem"
    by simp
  show "listenersOf sixListeners ''log'' =
     [\<lparr>handler = returning, priority = 5, type_l = ''custom'', id_l = ''L'', once = False,
       filter_l = None, timeout = Some 30000\<rparr>]"
    unfolding sixListeners_def listenersOf_on(1) e
    by (simp add: c makeListener_def withPriority_def noOptions_def)
qed

lemma sixListeners_after:
  "idle (fst (snd (emit ''msg'' [] 1007 sixListeners)))"
  "admitted m b (fst (snd (emit ''msg'' [] 1007 sixListeners)))"
  "map id_l (listenersOf (fst (snd (emit ''msg'' [] 1007 sixListeners))) ''msg'')
     = [''T'', ''B'', ''C'', ''D'']"
  "listenersOf (fst (snd (emit ''msg'' [] 1007 sixListeners))) ''log''
     = listenersOf sixListeners ''log''"
proof -
  show "idle (fst (snd (emit ''msg'' [] 1007 sixListeners)))"
    using sixListeners_facts(1) by (rule emit_idle(5))
  show "admitted m b (fst (snd (emit ''msg'' [] 1007 sixListeners)))"
    by (simp add: emit_idle(6) [OF sixListeners_facts(1)] sixListeners_facts(2))
  show "map id_l (listenersOf (fst (snd (emit ''msg'' [] 1007 sixListeners))) ''msg'')
     = [''T'', ''B'', ''C'', ''D'']"
    by (simp add: emit_idle(3) [OF sixListeners_facts(1)] sixListeners_facts(2,3)
          listenersLoop.simps tryListener_def spliceById_def splice1_def Let_def
          throwing_def returning_def)
  show "listenersOf (fst (snd (emit ''msg'' [] 1007 sixListeners))) ''log''
     = listenersOf sixListeners ''log''"
    by (rule emit_idle(4) [OF sixListeners_facts(1)]) simp
qed

text \<open>
  T throws and A, one-shot, completes: the emit of \<open>msg\<close> calls T, A, C and D, logs T's
  failure, and leaves T, B, C, D registered. The next emit of \<open>log\<close> calls L, and the next
  emit of \<open>msg\<close> calls T, B, C and D.
\<close>

theorem listener_failure_isolated_witness:
  "idle sixListeners \<and> admitted ''msg'' [] sixListeners
   \<and> idle (fst (snd (emit ''msg'' [] 1007 sixListeners)))
   \<and> admitted ''log'' [JNum 1] (fst (snd (emit ''msg'' [] 1007 sixListeners)))
   \<and> admitted ''msg'' [JNum 2] (fst (snd (emit ''msg'' [] 1007 sixListeners)))
   \<and> map id_l (listenersOf sixListeners ''msg'') = [''T'', ''A'', ''B'', ''C'', ''D'']
   \<and> map handler (listenersOf sixListeners ''msg'')
       = [throwing, returning, returning, returning, returning]
   \<and> fst (emit ''msg'' [] 1007 sixListeners)
   \<and> map id_l (invoked (snd (snd (emit ''msg'' [] 1007 sixListeners))))
       = [''T'', ''A'', ''C'', ''D'']
   \<and> map id_l (map fst (failures (snd (snd (emit ''msg'' [] 1007 sixListeners))))) = [''T'']
   \<and> fst (emit ''log'' [JNum 1] 1008 (fst (snd (emit ''msg'' [] 1007 sixListeners))))
   \<and> map id_l (invoked (snd (snd (emit ''log'' [JNum 1] 1008
          (fst (snd (emit ''msg'' [] 1007 sixListeners))))))) = [''L'']
   \<and> fst (emit ''msg'' [JNum 2] 1008 (fst (snd (emit ''msg'' [] 1007 sixListeners))))
   \<and> map id_l (invoked (snd (snd (emit ''msg'' [JNum 2] 1008
          (fst (snd (emit ''msg'' [] 1007 sixListeners)))))))
       = [''T'', ''B'', ''C'', ''D'']"
proof -
  let ?es1 = "fst (snd (emit ''msg'' [] 1007 sixListeners))"
  have l1: "listenersOf ?es1 ''msg''
       = [\<lparr>handler = throwing, priority = 1, type_l = ''custom'', id_l = ''T'', once = False,
           filter_l = None, timeout = Some 30000\<rparr>,
          \<lparr>handler = returning, priority = 3, type_l = ''custom'', id_l = ''B'', once = False,
           filter_l = None, timeout = Some 30000\<rparr>,
          \<lparr>handler = returning, priority = 4, type_l = ''custom'', id_l = ''C'', once = False,
           filter_l = None, timeout = Some 30000\<rparr>,
          \<lparr>handler = returning, priority = 5, type_l = ''custom'', id_l = ''D'', once = False,
           filter_l = None, timeout = Some 30000\<rparr>]"
    by (simp add: emit_idle(3) [OF sixListeners_facts(1)] sixListeners_facts(2,3)
          listenersLoop.simps tryListener_def spliceById_def splice1_def Let_def
          throwing_def returning_def)
  note a = listener_failure_isolated
             [OF sixListeners_facts(1) sixListeners_facts(2) sixListeners_after(1)
                 sixListeners_after(2),
              where m = "''log''" and b = "[JNum 1]" and t' = 1008]
  note b = listener_failure_isolated
             [OF sixListeners_facts(1) sixListeners_facts(2) sixListeners_after(1)
                 sixListeners_after(2),
              where m = "''msg''" and b = "[JNum 2]" and t' = 1008]
  have "fst (emit ''msg'' [] 1007 sixListeners)"
    and "invoked (snd (snd (emit ''msg'' [] 1007 sixListeners)))
         = filter (\<lambda>l. accepts l []) (reached [] (listenersOf sixListeners ''msg''))"
    and "map fst (failures (snd (snd (emit ''msg'' [] 1007 sixListeners))))
         = filter (\<lambda>l. fails l []) (reached [] (listenersOf sixListeners ''msg''))"
    and "fst (emit ''log'' [JNum 1] 1008 ?es1)"
    and "invoked (snd (snd (emit ''log'' [JNum 1] 1008 ?es1)))
         = filter (\<lambda>l. accepts l [JNum 1]) (reached [JNum 1] (listenersOf ?es1 ''log''))"
    using a by blast+
  moreover have "fst (emit ''msg'' [JNum 2] 1008 ?es1)"
    and "invoked (snd (snd (emit ''msg'' [JNum 2] 1008 ?es1)))
         = filter (\<lambda>l. accepts l [JNum 2]) (reached [JNum 2] (listenersOf ?es1 ''msg''))"
    using b by blast+
  ultimately show ?thesis
    using sixListeners_facts(1,2) sixListeners_after(1,2)
    by (simp add: sixListeners_facts(3,4) sixListeners_after(4) l1 fires_def accepts_def
          fails_def tryListener_def returning_def throwing_def)
qed

text \<open>
  The claim as stated fails in two ways. B stands behind the one-shot listener A: when A
  has run and is spliced out of the array, B moves into A's position and the iterator steps
  over it, so B is not called in this emit (T, which throws, and A are). And a listener
  whose own filter rejects the event is not called either.
\<close>

theorem listener_failure_isolated_counterexample:
  "map id_l (listenersOf skipAfterOnce ''msg'') = [''T'', ''A'', ''B'']
   \<and> map id_l (invoked (snd (snd (emit ''msg'' [] 1004 skipAfterOnce)))) = [''T'', ''A'']
   \<and> map id_l (map fst (failures (snd (snd (emit ''msg'' [] 1004 skipAfterOnce))))) = [''T'']
   \<and> map id_l (listenersOf (fst (snd (emit ''msg'' [] 1004 skipAfterOnce))) ''msg'')
       = [''T'', ''B'']
   \<and> map id_l (listenersOf rejectedByFilter ''msg'') = [''T'', ''F'']
   \<and> map id_l (invoked (snd (snd (emit ''msg'' [] 1004 rejectedByFilter)))) = [''T'']"
proof -
  have s: "idle skipAfterOnce" "admitted ''msg'' [] skipAfterOnce"
    unfolding skipAfterOnce_def by (rule registered_setup)+
  have r: "idle rejectedByFilter" "admitted ''msg'' [] rejectedByFilter"
    unfolding rejectedByFilter_def by (rule registered_setup)+
  have l1: "listenersLoop [] 0 (listenersOf skipAfterOnce ''msg'')
             = ([\<lparr>handler = throwing, priority = 1, type_l = ''custom'', id_l = ''T'',
                  once = False, filter_l = None, timeout = Some 30000\<rparr>,
                 \<lparr>handler = returning, priority = 3, type_l = ''custom'', id_l = ''B'',
                  once = False, filter_l = None, timeout = Some 30000\<rparr>],
                [ListenerCall \<lparr>handler = throwing, priority = 1, type_l = ''custom'',
                    id_l = ''T'', once = False, filter_l = None, timeout = Some 30000\<rparr> [],
                 ListenerError \<lparr>handler = throwing, priority = 1, type_l = ''custom'',
                    id_l = ''T'', once = False, filter_l = None, timeout = Some 30000\<rparr>
                    (JErr ''boom''),
                 ListenerCall \<lparr>handler = returning, priority = 2, type_l = ''custom'',
                    id_l = ''A'', once = True, filter_l = None, timeout = Some 30000\<rparr> []])"
    by (simp add: skipAfterOnce_msg listenersLoop.simps tryListener_def spliceById_def
          splice1_def Let_def throwing_def returning_def)
  have l2: "invoked (snd (listenersLoop [] 0 (listenersOf rejectedByFilter ''msg'')))
             = [\<lparr>handler = throwing, priority = 1, type_l = ''custom'', id_l = ''T'',
                  once = False, filter_l = None, timeout = Some 30000\<rparr>]"
    by (simp add: rejectedByFilter_msg listenersLoop.simps tryListener_def Let_def
          throwing_def returning_def rejecting_def)
  show ?thesis
    by (simp add: emit_idle(2,3) [OF s(1)] emit_idle_failures [OF s(1)] s(2) l1
          emit_idle(2) [OF r(1)] r(2) l2)
       (simp add: skipAfterOnce_msg rejectedByFilter_msg)
qed

section \<open>The error middleware\<close>

text \<open>
  Claim C3 fails on the code. No emit, in any state, calls a middleware of type \<open>'error'\<close>:
  \<open>processEvent\<close> runs the types \<open>'pre'\<close> and \<open>'post'\<close>, and what a listener throws is caught
  in \<open>executeEventListeners\<close>, which only logs it. With the middleware E of type \<open>'error'\<close>
  and the throwing listener X registered on \<open>test\<close>, an emit of \<open>test\<close> logs X's error and
  calls E not once but never.
\<close>

theorem error_middleware_never_called:
  "errorMiddlewareCalls (snd (snd (emit n a t es))) = []
   \<and> map type_m (the (middlewareStack withErrorMiddleware ''test'')) = [''error'']
   \<and> map id_l (invoked (snd (snd (emit ''test'' [] 1003 withErrorMiddleware)))) = [''X'']
   \<and> map snd (failures (snd (snd (emit ''test'' [] 1003 withErrorMiddleware))))
       = [JErr ''boom'']
   \<and> errorMiddlewareCalls (snd (snd (emit ''test'' [] 1003 withErrorMiddleware))) = []"
proof -
  have "listenersLoop [] 0 (listenersOf withErrorMiddleware ''test'')
          = (listenersOf withErrorMiddleware ''test'',
             concat (map (\<lambda>l. snd (tryListener l [])) (listenersOf withErrorMiddleware ''test'')))"
    by (rule listenersLoop_no_fire [of 0 _ "[]", simplified])
       (simp add: withErrorMiddleware_facts fires_def)
  then show ?thesis
    by (simp add: emit_errorCalls emit_idle(2) emit_idle_failures withErrorMiddleware_facts
          tryListener_def throwing_def)
qed

section \<open>One-shot listeners\<close>




section \<open>A one-shot listener that fails\<close>





section \<open>The rate limit\<close>

lemma orOne_nonzero: "orOne v \<noteq> 0"
  by (simp add: orOne_def split: option.splits)

lemma updateRateLimit_id: "updateRateLimit endpoint hs now c = c"
  by (simp add: updateRateLimit_def Let_def orOne_nonzero)

text \<open>
  Claim C1 fails on the code. \<open>updateRateLimit\<close> reads the remaining count as
  \<open>parseInt(...) || 1\<close>, which turns a reported 0 into 1, so its test \<open>remaining === 0\<close>
  never holds: whatever the headers say, no reset time is ever stored, and \<open>checkRateLimit\<close>
  finds nothing to wait for. After a response at time 5000 that reports \<open>remaining = 0\<close>
  and a reset after 2 s, the headers parse as 0 and 2, and yet a request to the same route
  made at once is not suspended: it reaches the transport at time 5000, not at 7000 or later.
\<close>

theorem rate_limit_never_recorded:
  "updateRateLimit endpoint hs now c = c
   \<and> parseInt (zeroRemaining ''x-ratelimit-remaining'') = Some 0
   \<and> parseInt (zeroRemaining ''x-ratelimit-reset-after'') = Some 2
   \<and> getRouteKey ''channels/1/messages'' = ''channels/1''
   \<and> rateLimits (snd (snd (api ''channels/1/messages'' 4900 (Responded limitedResponse) 5000
                              newClient))) ''channels/1'' = None
   \<and> checkRateLimit ''channels/1/messages'' 5000
        (snd (snd (api ''channels/1/messages'' 4900 (Responded limitedResponse) 5000 newClient)))
       = 0
   \<and> fst (api ''channels/1/messages'' 5000 answer answeredAt
        (snd (snd (api ''channels/1/messages'' 4900 (Responded limitedResponse) 5000 newClient))))
       = 5000"
proof -
  have a: "snd (snd (api ''channels/1/messages'' 4900 (Responded limitedResponse) 5000 newClient))
           = newClient"
    by (simp add: api_def updateRateLimit_id)
  have k: "getRouteKey ''channels/1/messages'' = ''channels/1''"
    by (simp add: getRouteKey_def)
  have w: "checkRateLimit ''channels/1/messages'' 5000 newClient = 0"
    by (simp add: checkRateLimit_def newClient_def)
  have p: "parseInt (zeroRemaining ''x-ratelimit-remaining'') = Some 0"
    "parseInt (zeroRemaining ''x-ratelimit-reset-after'') = Some 2"
    by (simp_all add: zeroRemaining_def parseInt_def isSpace_def parseMagnitude_def
          digitValue_def number_def)
  have f: "fst (api ''channels/1/messages'' 5000 answer answeredAt newClient) = 5000"
    using w by (cases answer) (simp_all add: api_def)
  from a k w p f show ?thesis
    by (simp add: updateRateLimit_id newClient_def)
qed

section \<open>The last sequence number\<close>

lemma lastSequence_handlers [simp]:
  "lastSequence (fst (handleReady data c)) = lastSequence c"
  "lastSequence (fst (handleGuildCreate data c)) = lastSequence c"
  "lastSequence (fst (startHeartbeat data c)) = lastSequence c"
  "lastSequence (sendHeartbeat c) = lastSequence c"
  by (simp_all add: handleReady_def handleGuildCreate_def startHeartbeat_def sendHeartbeat_def
        split: payload.splits)

lemma lastSequence_handleDispatch [simp]:
  "lastSequence (fst (handleDispatch event data c)) = lastSequence c"
  by (simp add: handleDispatch_def split: option.splits)

lemma lastSequence_handleGatewayMessage:
  "lastSequence (fst (handleGatewayMessage p c)) =
     (case s_p p of None \<Rightarrow> lastSequence c
      | Some k \<Rightarrow> if k = 0 then lastSequence c else Some k)"
  by (simp add: handleGatewayMessage_def Let_def split: option.splits)

lemma lastSequence_deliver:
  "\<forall>k\<in>set ss. 0 < k \<Longrightarrow> map s_p ps = map Some ss \<Longrightarrow>
   map lastSequence (deliver ps c) = map Some ss"
proof (induction ps arbitrary: ss c)
  case Nil
  then show ?case by simp
next
  case (Cons p ps)
  then obtain k ks where ss: "ss = k # ks" by (cases ss) auto
  with Cons.prems have "s_p p = Some k" "0 < k" "\<forall>k\<in>set ks. 0 < k" "map s_p ps = map Some ks"
    by simp_all
  with Cons.IH [of ks] show ?case
    by (simp add: ss lastSequence_handleGatewayMessage)
qed


lemma Max_sorted_last: "sorted xs \<Longrightarrow> xs \<noteq> [] \<Longrightarrow> Max (set xs) = last xs"
proof (induction xs)
  case Nil
  then show ?case by simp
next
  case (Cons x xs)
  show ?case
  proof (cases "xs = []")
    case True
    then show ?thesis by simp
  next
    case False
    with Cons have "Max (set xs) = last xs" "x \<le> last xs"
      by simp_all
    with False show ?thesis by (simp add: max_def)
  qed
qed

lemma sorted_map_Some: "sorted xs \<Longrightarrow> sorted (map Some xs)"
  by (induction xs) auto

text \<open>
  Claim C5, as amended: for positive sequence numbers. Let the packets delivered carry the
  sequence numbers \<open>0 < s1 < s2 < ...\<close> (whatever their opcodes and payloads, and whether or
  not their handlers raise). Then after each delivery the tracked value is the number of
  the packet just delivered, so the tracked values never decrease (counting from the start,
  for a client that has tracked nothing yet), and after the last delivery the tracked value
  is the largest number seen.
\<close>

theorem last_sequence_tracks_maximum:
  assumes "sorted_wrt (<) ss" and "\<forall>k\<in>set ss. 0 < k" and "map s_p ps = map Some ss"
  shows "map lastSequence (deliver ps c) = map Some ss
       \<and> sorted (map lastSequence (deliver ps c))
       \<and> (lastSequence c = None \<longrightarrow> sorted (map lastSequence (c # deliver ps c)))
       \<and> (ps \<noteq> [] \<longrightarrow> lastSequence (last (deliver ps c)) = Some (Max (set ss)))"
proof -
  have m: "map lastSequence (deliver ps c) = map Some ss"
    using assms(2,3) by (rule lastSequence_deliver)
  have so: "sorted ss"
    using assms(1) by (rule strict_sorted_imp_sorted)
  then have s1: "sorted (map lastSequence (deliver ps c))"
    by (simp add: m sorted_map_Some)
  have s2: "sorted (map lastSequence (c # deliver ps c))" if "lastSequence c = None"
    using that s1 by simp
  have l: "lastSequence (last (deliver ps c)) = Some (Max (set ss))" if "ps \<noteq> []"
  proof -
    from that assms(3) have ne: "ss \<noteq> []" by auto
    with m have "deliver ps c \<noteq> []" by auto
    then have "lastSequence (last (deliver ps c)) = last (map lastSequence (deliver ps c))"
      by (simp add: last_map)
    also have "\<dots> = Some (last ss)"
      using ne by (simp add: m last_map)
    finally show ?thesis
      using so ne by (simp add: Max_sorted_last)
  qed
  from m s1 s2 l show ?thesis by blast
qed

theorem last_sequence_tracks_maximum_witness:
  "sorted_wrt (<) [1, 2, 5 :: nat] \<and> map s_p threeFrames = map Some [1, 2, 5]
   \<and> map op_p threeFrames = [0, 0, 0]
   \<and> map lastSequence (deliver threeFrames newClient) = [Some 1, Some 2, Some 5]
   \<and> sorted (map lastSequence (newClient # deliver threeFrames newClient))
   \<and> lastSequence (last (deliver threeFrames newClient)) = Some 5
   \<and> Max (set [1, 2, 5 :: nat]) = 5"
proof -
  have a: "sorted_wrt (<) [1, 2, 5 :: nat]" by simp
  have b: "\<forall>k\<in>set [1, 2, 5 :: nat]. 0 < k" by simp
  have c: "map s_p threeFrames = map Some [1, 2, 5]" by (simp add: threeFrames_def)
  have d: "lastSequence newClient = None" by (simp add: newClient_def)
  have e: "threeFrames \<noteq> []" by (simp add: threeFrames_def)
  from last_sequence_tracks_maximum [OF a b c, of newClient] d e
  show ?thesis
    using a c by (simp add: threeFrames_def)
qed

text \<open>
  The claim as stated fails at the sequence number 0, which \<open>if (s)\<close> takes for absent: a
  client that has tracked nothing yet and is delivered one dispatch frame with \<open>s = 0\<close>
  still tracks nothing, while the largest number seen is 0.
\<close>

theorem last_sequence_tracks_maximum_counterexample:
  "op_p zeroFrame = 0 \<and> map s_p [zeroFrame] = map Some [0]
   \<and> lastSequence (last (deliver [zeroFrame] newClient)) = None
   \<and> lastSequence (last (deliver [zeroFrame] newClient)) \<noteq> Some (Max (set [0]))"
  by (simp add: zeroFrame_def lastSequence_handleGatewayMessage newClient_def)

section \<open>The primary provider's error count\<close>

lemma processIntelligence_fallback_available [simp]:
  "available_s (fallback (snd (snd (processIntelligence p f e)))) = available_s (fallback e)"
  by (simp add: processIntelligence_def split: provider_reply.splits)

lemma processIntelligence_unavailable:
  assumes "\<not> available_s (primary e)"
  shows "primary (snd (snd (processIntelligence p f e))) = primary e"
    and "fst (snd (processIntelligence p f e)) = (if available_s (fallback e) then [Fallback] else [])"
  using assms by (simp_all add: processIntelligence_def split: provider_reply.splits)

lemma processIntelligence_available:
  assumes "available_s (primary e)"
  shows "hd (fst (snd (processIntelligence p f e))) = Primary"
  using assms by (simp add: processIntelligence_def split: provider_reply.splits)

lemma processIntelligence_primary_error:
  assumes "available_s (primary e)"
  shows "primary (snd (snd (processIntelligence (ProviderError m) f e)))
           = (primary e)\<lparr>errorCount_s := Suc (errorCount_s (primary e)),
                          available_s := (Suc (errorCount_s (primary e)) \<le> 5)\<rparr>"
  using assms by (auto simp: processIntelligence_def split: provider_reply.splits)

lemma processIntelligence_primary_reply:
  "primary (snd (snd (processIntelligence (Reply r) f e))) = primary e"
  by (simp add: processIntelligence_def split: provider_reply.splits)

lemma serve_fallback_available [simp]:
  "available_s (fallback (serve rs e)) = available_s (fallback e)"
  by (induction rs e rule: serve.induct) simp_all

lemma serve_unavailable:
  "\<not> available_s (primary e) \<Longrightarrow> primary (serve rs e) = primary e"
  by (induction rs e rule: serve.induct) (simp_all add: processIntelligence_unavailable)

lemma serve_primary:
  assumes "available_s (primary e)" and "errorCount_s (primary e) \<le> 5"
  shows "errorCount_s (primary (serve rs e)) = min (errorCount_s (primary e) + primaryFailures rs) 6
         \<and> available_s (primary (serve rs e)) = (errorCount_s (primary e) + primaryFailures rs < 6)"
  using assms
proof (induction rs arbitrary: e rule: primaryFailures.induct)
  case 1
  then show ?case by simp
next
  case (2 m f rs)
  let ?e1 = "snd (snd (processIntelligence (ProviderError m) f e))"
  have p1: "primary ?e1 = (primary e)\<lparr>errorCount_s := Suc (errorCount_s (primary e)),
                          available_s := (Suc (errorCount_s (primary e)) \<le> 5)\<rparr>"
    using "2.prems"(1) by (rule processIntelligence_primary_error)
  show ?case
  proof (cases "Suc (errorCount_s (primary e)) \<le> 5")
    case True
    then have "available_s (primary ?e1)" "errorCount_s (primary ?e1) \<le> 5"
      by (simp_all add: p1)
    from "2.IH" [OF this] show ?thesis
      by (simp add: p1)
  next
    case False
    then have "\<not> available_s (primary ?e1)"
      by (simp add: p1)
    from serve_unavailable [OF this, of rs] False "2.prems"(2) show ?thesis
      by (simp add: p1)
  qed
next
  case (3 r f rs)
  let ?e1 = "snd (snd (processIntelligence (Reply r) f e))"
  have "primary ?e1 = primary e"
    by (rule processIntelligence_primary_reply)
  with "3.IH" [of ?e1] "3.prems" show ?case
    by simp
qed

text \<open>
  Claim C4, as the code has it. There is no configurable threshold: the limit is the
  constant in \<open>errorCount > 5\<close>. The count is never reset, so it counts all failures of the
  primary since the engine was built, consecutive or not. On a new engine the primary is
  marked unavailable by its sixth failure: before that (fewer than six failures, whatever
  lies between them) the next request calls the primary first; from then on every request
  goes to the fallback directly.
\<close>

theorem primary_disabled_after_six_failures:
  "errorCount_s (primary (serve rs newAIEngine)) = min (primaryFailures rs) 6
   \<and> available_s (primary (serve rs newAIEngine)) = (primaryFailures rs < 6)
   \<and> (6 \<le> primaryFailures rs \<longrightarrow>
         fst (snd (processIntelligence p f (serve rs newAIEngine))) = [Fallback])
   \<and> (primaryFailures rs < 6 \<longrightarrow>
         hd (fst (snd (processIntelligence p f (serve rs newAIEngine)))) = Primary)"
proof -
  have n: "available_s (primary newAIEngine)" "errorCount_s (primary newAIEngine) \<le> 5"
    "errorCount_s (primary newAIEngine) = 0" "available_s (fallback newAIEngine)"
    by (simp_all add: newAIEngine_def)
  from serve_primary [OF n(1,2), of rs]
  have s: "errorCount_s (primary (serve rs newAIEngine)) = min (primaryFailures rs) 6"
    "available_s (primary (serve rs newAIEngine)) = (primaryFailures rs < 6)"
    by (simp_all add: n(3))
  have "fst (snd (processIntelligence p f (serve rs newAIEngine))) = [Fallback]"
    if "6 \<le> primaryFailures rs"
  proof -
    from that s(2) have "\<not> available_s (primary (serve rs newAIEngine))" by simp
    from processIntelligence_unavailable(2) [OF this, of p f] show ?thesis
      by (simp add: n(4))
  qed
  moreover have "hd (fst (snd (processIntelligence p f (serve rs newAIEngine)))) = Primary"
    if "primaryFailures rs < 6"
    using that s(2) by (simp add: processIntelligence_available)
  ultimately show ?thesis
    using s by blast
qed

theorem primary_disabled_after_six_failures_witness:
  "6 \<le> primaryFailures [failing, failing, failing, failing, failing, failing]
   \<and> errorCount_s (primary sixFailures) = 6
   \<and> \<not> available_s (primary sixFailures)
   \<and> fst (snd (processIntelligence (Reply ''from the primary'') (Reply ''from the fallback'')
                 sixFailures)) = [Fallback]
   \<and> primaryFailures [failing, failing, failing] < 6
   \<and> hd (fst (snd (processIntelligence (Reply ''from the primary'') (Reply ''from the fallback'')
                     threeFailures))) = Primary"
  using primary_disabled_after_six_failures
          [of "[failing, failing, failing, failing, failing, failing]"
              "Reply ''from the primary''" "Reply ''from the fallback''"]
        primary_disabled_after_six_failures
          [of "[failing, failing, failing]"
              "Reply ''from the primary''" "Reply ''from the fallback''"]
  by (simp add: sixFailures_def threeFailures_def failing_def)

text \<open>
  After three failures in a row the primary is still marked available, and the fourth
  request calls it (and only it, when it answers).
\<close>

theorem primary_disabled_after_six_failures_counterexample:
  "primaryFailures [failing, failing, failing] = 3
   \<and> errorCount_s (primary threeFailures) = 3
   \<and> available_s (primary threeFailures)
   \<and> fst (snd (processIntelligence (Reply ''from the primary'') (Reply ''from the fallback'')
                 threeFailures)) = [Primary]"
  by (simp add: threeFailures_def failing_def newAIEngine_def processIntelligence_def)

end
